theory Spec2Isabelle
  imports Main
begin

section \<open>Memory, fault injection and observable events\<close>

text \<open>
  The container of \<^verbatim>\<open>vector.h\<close> owns a raw block obtained from \<^verbatim>\<open>operator new\<close> and
  constructs elements into it with placement new.  The model keeps an explicit store:
  address \<open>a\<close> denotes entry \<open>a\<close> of the heap list; a released block is \<open>None\<close>; a slot
  of a block is \<open>None\<close> while it is raw memory and \<open>Some x\<close> while an element with value
  \<open>x\<close> lives there.  \<^verbatim>\<open>operator new\<close> always hands out a fresh address.

  Every operation that C++ allows to throw (\<^verbatim>\<open>operator new\<close>, a copy construction, a move
  construction of an element) is a fault point: it consumes the head of the list
  \<open>faults\<close> and throws when that head is \<open>True\<close>; an exhausted list means no further
  fault.  Destructors and element swaps never throw (the contract the source states as
  \<^verbatim>\<open>nothrow\<close> and \<^verbatim>\<open>nothrow(swap)\<close>).  The trace records allocations, releases and the
  constructions and destructions of elements inside blocks, in program order.

  \<^verbatim>\<open>size_t\<close> quantities are natural numbers: a block of \<open>n\<close> slots has room for exactly
  \<open>n\<close> elements, and the growth step \<^verbatim>\<open>capacity() * 2 + 1\<close> is taken without wrap-around
  (it is evaluated only when \<^verbatim>\<open>size() == capacity()\<close>, so a wrap would need more than
  \<open>2^63\<close> live elements).  Behaviour that C++ leaves undefined (touching a slot outside
  its block, using a dead element, an iterator outside the container) is the explicit
  outcome \<open>Undefined\<close>.
\<close>

type_synonym addr = nat

type_synonym 'a block = "'a option list"

datatype 'a event =
    Allocate addr nat
  | Deallocate addr
  | Copy_Construct addr nat 'a
  | Move_Construct addr nat 'a
  | Destroy addr nat 'a

record 'a world =
  heap :: "'a block option list"
  faults :: "bool list"
  trace :: "'a event list"

datatype failure = Bad_Alloc | Element_Threw | Undefined

text \<open>
  The members \<^verbatim>\<open>data_\<close>, \<^verbatim>\<open>size_\<close> and \<^verbatim>\<open>capacity_\<close> (a name cannot end in an underscore
  here, so they carry the prefix \<open>m_\<close>).
\<close>

record vec =
  m_data :: "addr option"
  m_size :: nat
  m_capacity :: nat

text \<open>The default member initialisers: \<^verbatim>\<open>data_{nullptr}, size_{0}, capacity_{0}\<close>.\<close>

definition vector_default :: vec where
  "vector_default = \<lparr>m_data = None, m_size = 0, m_capacity = 0\<rparr>"

definition fault_point :: "'a world \<Rightarrow> bool \<times> 'a world" where
  "fault_point w = (case faults w of [] \<Rightarrow> (False, w) | f # fs \<Rightarrow> (f, w\<lparr>faults := fs\<rparr>))"

definition block_of :: "'a world \<Rightarrow> addr option \<Rightarrow> 'a block option" where
  "block_of w p =
     (case p of None \<Rightarrow> None
      | Some a \<Rightarrow> if a < length (heap w) then heap w ! a else None)"

text \<open>The element living at \<^verbatim>\<open>p[i]\<close>, if there is one.\<close>

definition live :: "'a world \<Rightarrow> addr option \<Rightarrow> nat \<Rightarrow> 'a option" where
  "live w p i =
     (case block_of w p of None \<Rightarrow> None
      | Some b \<Rightarrow> if i < length b then b ! i else None)"

definition store :: "addr \<Rightarrow> nat \<Rightarrow> 'a option \<Rightarrow> 'a world \<Rightarrow> 'a world" where
  "store a i s w = w\<lparr>heap := (heap w)[a := map_option (\<lambda>b. b[i := s]) (heap w ! a)]\<rparr>"

definition log :: "'a event \<Rightarrow> 'a world \<Rightarrow> 'a world" where
  "log e w = w\<lparr>trace := trace w @ [e]\<rparr>"

text \<open>\<^verbatim>\<open>operator new(sizeof(T) * n)\<close>: a fresh block of \<open>n\<close> raw slots, or \<^verbatim>\<open>std::bad_alloc\<close>.\<close>

definition operator_new :: "nat \<Rightarrow> 'a world \<Rightarrow> (failure + addr) \<times> 'a world" where
  "operator_new n w =
     (case fault_point w of
        (True, w1) \<Rightarrow> (Inl Bad_Alloc, w1)
      | (False, w1) \<Rightarrow>
          (Inr (length (heap w1)),
           log (Allocate (length (heap w1)) n) (w1\<lparr>heap := heap w1 @ [Some (replicate n None)]\<rparr>)))"

text \<open>\<^verbatim>\<open>operator delete(p)\<close>; deleting the null pointer does nothing.\<close>

definition operator_delete :: "addr option \<Rightarrow> 'a world \<Rightarrow> 'a world" where
  "operator_delete p w =
     (case p of None \<Rightarrow> w
      | Some a \<Rightarrow> log (Deallocate a) (w\<lparr>heap := (heap w)[a := None]\<rparr>))"

text \<open>
  Placement new \<^verbatim>\<open>new (p + i) T(x)\<close>; \<open>mk\<close> tells whether \<open>x\<close> is copied or moved from.
  The slot must lie inside an allocated block.
\<close>

definition construct_at ::
  "(addr \<Rightarrow> nat \<Rightarrow> 'a \<Rightarrow> 'a event) \<Rightarrow> addr option \<Rightarrow> nat \<Rightarrow> 'a \<Rightarrow> 'a world
     \<Rightarrow> (failure + unit) \<times> 'a world" where
  "construct_at mk p i x w =
     (case p of None \<Rightarrow> (Inl Undefined, w)
      | Some a \<Rightarrow>
         (case block_of w p of None \<Rightarrow> (Inl Undefined, w)
          | Some b \<Rightarrow>
             if i < length b then
               (case fault_point w of
                  (True, w1) \<Rightarrow> (Inl Element_Threw, w1)
                | (False, w1) \<Rightarrow> (Inr (), log (mk a i x) (store a i (Some x) w1)))
             else (Inl Undefined, w)))"

text \<open>The destructor call \<^verbatim>\<open>p[i].~T()\<close>; it never throws.\<close>

definition destroy_at :: "addr option \<Rightarrow> nat \<Rightarrow> 'a world \<Rightarrow> (failure + unit) \<times> 'a world" where
  "destroy_at p i w =
     (case p of None \<Rightarrow> (Inl Undefined, w)
      | Some a \<Rightarrow>
         (case live w p i of None \<Rightarrow> (Inl Undefined, w)
          | Some x \<Rightarrow> (Inr (), log (Destroy a i x) (store a i None w))))"

text \<open>\<^verbatim>\<open>std::swap(p[i], p[j])\<close> on two live elements; it never throws.\<close>

definition swap_at :: "addr option \<Rightarrow> nat \<Rightarrow> nat \<Rightarrow> 'a world \<Rightarrow> (failure + unit) \<times> 'a world" where
  "swap_at p i j w =
     (case p of None \<Rightarrow> (Inl Undefined, w)
      | Some a \<Rightarrow>
         (case (live w p i, live w p j) of
            (Some x, Some y) \<Rightarrow> (Inr (), store a j (Some x) (store a i (Some y) w))
          | _ \<Rightarrow> (Inl Undefined, w)))"

section \<open>The container\<close>

text \<open>
  A member function is a function of the members of \<^verbatim>\<open>*this\<close> and the world; it returns
  how the call ended, the members afterwards and the world afterwards.  A thrown
  exception is \<open>Inl\<close>.  An argument of type \<^verbatim>\<open>const vector&\<close> is an \<open>operand\<close>: the very
  object the call is made on (the test \<^verbatim>\<open>&other == this\<close> succeeds) or another object.
\<close>

datatype operand = Self | Other vec

text \<open>The loop of the catch block: \<^verbatim>\<open>for (size_t j = i; j > 0; --j) data_[j - 1].~T();\<close>\<close>

fun destroy_down :: "addr option \<Rightarrow> nat \<Rightarrow> 'a world \<Rightarrow> (failure + unit) \<times> 'a world" where
  "destroy_down p 0 w = (Inr (), w)"
| "destroy_down p (Suc j) w =
     (case destroy_at p j w of
        (Inl e, w1) \<Rightarrow> (Inl e, w1)
      | (Inr u, w1) \<Rightarrow> destroy_down p j w1)"

text \<open>
  The copying loop of the private constructor, from index \<open>i\<close> on, with its handler:
  destroy what was built, release the block, rethrow.
\<close>

function copy_elements ::
  "addr option \<Rightarrow> vec \<Rightarrow> nat \<Rightarrow> 'a world \<Rightarrow> (failure + unit) \<times> 'a world" where
  "copy_elements p other i w =
     (if i < m_size other then
        (case live w (m_data other) i of
           None \<Rightarrow> (Inl Undefined, w)
         | Some x \<Rightarrow>
            (case construct_at Copy_Construct p i x w of
               (Inl e, w1) \<Rightarrow>
                 if e = Undefined then (Inl Undefined, w1)
                 else (case destroy_down p i w1 of
                         (Inl e', w2) \<Rightarrow> (Inl e', w2)
                       | (Inr u, w2) \<Rightarrow> (Inl e, operator_delete p w2))
             | (Inr u, w1) \<Rightarrow> copy_elements p other (Suc i) w1))
      else (Inr (), w))"
  by pat_completeness auto
termination
  by (relation "measure (\<lambda>(p, other, i, w). m_size other - i)") auto

declare copy_elements.simps [simp del]

text \<open>
  The private constructor \<^verbatim>\<open>vector(const vector& other, size_t new_capacity)\<close>.  On an
  exception no object has been constructed, so only the world is returned with it.
\<close>

definition vector_with_capacity ::
  "operand \<Rightarrow> nat \<Rightarrow> 'a world \<Rightarrow> (failure + vec) \<times> 'a world" where
  "vector_with_capacity other new_capacity w =
     (case other of
        Self \<Rightarrow> (Inr vector_default, w)
      | Other ov \<Rightarrow>
          if new_capacity = 0 then (Inr vector_default, w)
          else
            (case operator_new new_capacity w of
               (Inl e, w1) \<Rightarrow> (Inl e, w1)
             | (Inr a, w1) \<Rightarrow>
                 (case copy_elements (Some a) ov 0 w1 of
                    (Inl e, w2) \<Rightarrow> (Inl e, w2)
                  | (Inr u, w2) \<Rightarrow>
                      (Inr \<lparr>m_data = Some a, m_size = m_size ov, m_capacity = new_capacity\<rparr>, w2))))"

text \<open>The copy constructor \<^verbatim>\<open>vector(const vector& other) : vector(other, other.size())\<close>.\<close>

definition vector_copy :: "vec \<Rightarrow> 'a world \<Rightarrow> (failure + vec) \<times> 'a world" where
  "vector_copy other w = vector_with_capacity (Other other) (m_size other) w"

text \<open>The move constructor: the new object and what is left in \<open>other\<close>.\<close>

definition vector_move :: "vec \<Rightarrow> vec \<times> vec" where
  "vector_move other = (other, vector_default)"

definition swap :: "vec \<Rightarrow> vec \<Rightarrow> vec \<times> vec" where
  "swap v other = (other, v)"

definition size :: "vec \<Rightarrow> nat" where
  "size v = m_size v"

definition capacity :: "vec \<Rightarrow> nat" where
  "capacity v = m_capacity v"

definition data :: "vec \<Rightarrow> addr option" where
  "data v = m_data v"

definition empty :: "vec \<Rightarrow> bool" where
  "empty v = (size v = 0)"

text \<open>Iterators are pointers: a block and an offset into it.\<close>

type_synonym iterator = "addr option \<times> nat"

definition begin_it :: "vec \<Rightarrow> iterator" where
  "begin_it v = (m_data v, 0)"

definition end_it :: "vec \<Rightarrow> iterator" where
  "end_it v = (m_data v, m_size v)"

text \<open>Pointer arithmetic \<^verbatim>\<open>it + n\<close>.\<close>

definition advance :: "iterator \<Rightarrow> nat \<Rightarrow> iterator" where
  "advance it n = (fst it, snd it + n)"

text \<open>\<^verbatim>\<open>operator[]\<close>: the element at an index, undefined outside \<open>[0, size)\<close>.\<close>

definition at :: "'a world \<Rightarrow> vec \<Rightarrow> nat \<Rightarrow> failure + 'a" where
  "at w v index =
     (if index < m_size v then
        (case live w (m_data v) index of None \<Rightarrow> Inl Undefined | Some x \<Rightarrow> Inr x)
      else Inl Undefined)"

text \<open>\<^verbatim>\<open>pop_back\<close>: \<^verbatim>\<open>back().~T(); size_--;\<close> where \<^verbatim>\<open>back()\<close> is \<^verbatim>\<open>*(end() - 1)\<close>.\<close>

definition pop_back :: "vec \<Rightarrow> 'a world \<Rightarrow> (failure + unit) \<times> vec \<times> 'a world" where
  "pop_back v w =
     (if m_size v = 0 then (Inl Undefined, v, w)
      else
        (case destroy_at (m_data v) (m_size v - 1) w of
           (Inl e, w1) \<Rightarrow> (Inl e, v, w1)
         | (Inr u, w1) \<Rightarrow> (Inr (), v\<lparr>m_size := m_size v - 1\<rparr>, w1)))"

text \<open>A loop that calls \<^verbatim>\<open>pop_back()\<close> a given number of times.\<close>

fun pop_back_times :: "nat \<Rightarrow> vec \<Rightarrow> 'a world \<Rightarrow> (failure + unit) \<times> vec \<times> 'a world" where
  "pop_back_times 0 v w = (Inr (), v, w)"
| "pop_back_times (Suc n) v w =
     (case pop_back v w of
        (Inl e, v1, w1) \<Rightarrow> (Inl e, v1, w1)
      | (Inr u, v1, w1) \<Rightarrow> pop_back_times n v1 w1)"

definition clear :: "vec \<Rightarrow> 'a world \<Rightarrow> (failure + unit) \<times> vec \<times> 'a world" where
  "clear v w =
     (case pop_back_times (m_size v) v w of
        (Inl e, v1, w1) \<Rightarrow> (Inl e, v1, w1)
      | (Inr u, v1, w1) \<Rightarrow> (Inr (), v1\<lparr>m_size := 0\<rparr>, w1))"

text \<open>The destructor: \<^verbatim>\<open>clear(); operator delete(data_);\<close>.  The object is gone afterwards.\<close>

definition vector_destroy :: "vec \<Rightarrow> 'a world \<Rightarrow> (failure + unit) \<times> 'a world" where
  "vector_destroy v w =
     (case clear v w of
        (Inl e, v1, w1) \<Rightarrow> (Inl e, w1)
      | (Inr u, v1, w1) \<Rightarrow> (Inr (), operator_delete (m_data v1) w1))"

text \<open>
  \<^verbatim>\<open>vector(...).swap(*this)\<close> or \<^verbatim>\<open>swap(tmp)\<close> followed by the end of the temporary's
  life: \<^verbatim>\<open>*this\<close> takes the members of \<open>tmp\<close>, and the temporary, which now holds the
  old members, is destroyed.
\<close>

definition swap_in :: "vec \<Rightarrow> vec \<Rightarrow> 'a world \<Rightarrow> (failure + unit) \<times> vec \<times> 'a world" where
  "swap_in tmp v w =
     (case swap v tmp of
        (v1, tmp1) \<Rightarrow>
          (case vector_destroy tmp1 w of
             (Inl e, w1) \<Rightarrow> (Inl e, v1, w1)
           | (Inr u, w1) \<Rightarrow> (Inr (), v1, w1)))"

text \<open>
  An exception leaves the scope of a local vector \<open>tmp\<close>: its destructor runs and the
  exception travels on; \<^verbatim>\<open>*this\<close> keeps the members \<open>v\<close>.
\<close>

definition unwind ::
  "failure \<Rightarrow> vec \<Rightarrow> vec \<Rightarrow> 'a world \<Rightarrow> (failure + unit) \<times> vec \<times> 'a world" where
  "unwind e tmp v w =
     (if e = Undefined then (Inl Undefined, v, w)
      else
        (case vector_destroy tmp w of
           (Inl e', w1) \<Rightarrow> (Inl e', v, w1)
         | (Inr u, w1) \<Rightarrow> (Inl e, v, w1)))"

text \<open>
  Initialising a by-value parameter of type \<open>T\<close> from an element value, by copy or by
  move: a fault point.  The parameter lives on the stack, outside every block.
\<close>

definition pass_by_value :: "'a \<Rightarrow> 'a world \<Rightarrow> (failure + 'a) \<times> 'a world" where
  "pass_by_value x w =
     (case fault_point w of
        (True, w1) \<Rightarrow> (Inl Element_Threw, w1)
      | (False, w1) \<Rightarrow> (Inr x, w1))"

text \<open>
  \<^verbatim>\<open>push_back(T value)\<close>.  With spare capacity the parameter is moved into the next free
  slot.  Otherwise a local vector \<open>tmp\<close> is built by the private constructor, the
  parameter is moved into the parameter of \<^verbatim>\<open>tmp.push_back\<close>, and \<open>tmp\<close> is swapped in.
\<close>

function push_back :: "'a \<Rightarrow> vec \<Rightarrow> 'a world \<Rightarrow> (failure + unit) \<times> vec \<times> 'a world" where
  "push_back x v w =
     (if m_size v < m_capacity v then
        (case construct_at Move_Construct (m_data v) (m_size v) x w of
           (Inl e, w1) \<Rightarrow> (Inl e, v, w1)
         | (Inr u, w1) \<Rightarrow> (Inr (), v\<lparr>m_size := m_size v + 1\<rparr>, w1))
      else
        (case vector_with_capacity (Other v)
                (if m_capacity v = 0 then 1 else m_capacity v * 2 + 1) w of
           (Inl e, w1) \<Rightarrow> (Inl e, v, w1)
         | (Inr tmp, w1) \<Rightarrow>
             (case pass_by_value x w1 of
                (Inl e, w2) \<Rightarrow> unwind e tmp v w2
              | (Inr x', w2) \<Rightarrow>
                  (case push_back x' tmp w2 of
                     (Inl e, tmp1, w3) \<Rightarrow> unwind e tmp1 v w3
                   | (Inr u, tmp1, w3) \<Rightarrow> swap_in tmp1 v w3))))"
  by pat_completeness auto
termination
proof (relation "measure (\<lambda>(x, v, w). Suc (m_size v) - m_capacity v)", goal_cases)
  case 1
  show ?case by simp
next
  case (2 x v w r w1 tmp p w2 x')
  from 2(2,3) have "vector_with_capacity (Other v)
      (if m_capacity v = 0 then 1 else m_capacity v * 2 + 1) w = (Inr tmp, w1)"
    by simp
  then have "m_size tmp = m_size v"
    and "m_capacity tmp = (if m_capacity v = 0 then 1 else m_capacity v * 2 + 1)"
    by (auto simp: vector_with_capacity_def split: prod.splits sum.splits if_splits)
  with 2(1) show ?case
    by (auto split: if_splits)
qed

declare push_back.simps [simp del]

text \<open>
  A reference \<^verbatim>\<open>const T&\<close>: to an object outside every block, or to the element in slot
  \<open>i\<close> of a block (possibly one of the container the call is made on).
\<close>

datatype 'a cref = Object 'a | Element "addr option" nat

definition deref :: "'a world \<Rightarrow> 'a cref \<Rightarrow> 'a option" where
  "deref w r = (case r of Object x \<Rightarrow> Some x | Element p i \<Rightarrow> live w p i)"

text \<open>
  The call \<^verbatim>\<open>push_back(value)\<close> with an lvalue \<^verbatim>\<open>const T& value\<close>: the parameter is
  copy-constructed from the referenced object before the body runs.
\<close>

definition push_back_lvalue ::
  "'a cref \<Rightarrow> vec \<Rightarrow> 'a world \<Rightarrow> (failure + unit) \<times> vec \<times> 'a world" where
  "push_back_lvalue r v w =
     (case deref w r of
        None \<Rightarrow> (Inl Undefined, v, w)
      | Some x \<Rightarrow>
          (case pass_by_value x w of
             (Inl e, w1) \<Rightarrow> (Inl e, v, w1)
           | (Inr x', w1) \<Rightarrow> push_back x' v w1))"

definition reserve :: "nat \<Rightarrow> vec \<Rightarrow> 'a world \<Rightarrow> (failure + unit) \<times> vec \<times> 'a world" where
  "reserve new_capacity v w =
     (if new_capacity > capacity v then
        (case vector_with_capacity (Other v) new_capacity w of
           (Inl e, w1) \<Rightarrow> (Inl e, v, w1)
         | (Inr tmp, w1) \<Rightarrow> swap_in tmp v w1)
      else (Inr (), v, w))"

definition shrink_to_fit :: "vec \<Rightarrow> 'a world \<Rightarrow> (failure + unit) \<times> vec \<times> 'a world" where
  "shrink_to_fit v w =
     (if size v \<noteq> capacity v then
        (case vector_with_capacity (Other v) (size v) w of
           (Inl e, w1) \<Rightarrow> (Inl e, v, w1)
         | (Inr tmp, w1) \<Rightarrow> swap_in tmp v w1)
      else (Inr (), v, w))"

text \<open>Copy assignment \<^verbatim>\<open>operator=(const vector& other)\<close>.\<close>

definition assign_copy :: "operand \<Rightarrow> vec \<Rightarrow> 'a world \<Rightarrow> (failure + unit) \<times> vec \<times> 'a world" where
  "assign_copy other v w =
     (case other of
        Self \<Rightarrow> (Inr (), v, w)
      | Other ov \<Rightarrow>
          (case vector_copy ov w of
             (Inl e, w1) \<Rightarrow> (Inl e, v, w1)
           | (Inr tmp, w1) \<Rightarrow> swap_in tmp v w1))"

text \<open>
  Move assignment \<^verbatim>\<open>operator=(vector&& other)\<close>: \<^verbatim>\<open>vector{}.swap(*this); other.swap(*this);\<close>.
  It also returns what is left in \<open>other\<close>.
\<close>

definition assign_move ::
  "operand \<Rightarrow> vec \<Rightarrow> 'a world \<Rightarrow> (failure + unit) \<times> vec \<times> operand \<times> 'a world" where
  "assign_move other v w =
     (case other of
        Self \<Rightarrow> (Inr (), v, Self, w)
      | Other ov \<Rightarrow>
          (case swap_in vector_default v w of
             (Inl e, v1, w1) \<Rightarrow> (Inl e, v1, Other ov, w1)
           | (Inr u, v1, w1) \<Rightarrow>
               (case swap ov v1 of (ov1, v2) \<Rightarrow> (Inr (), v2, Other ov1, w1))))"

text \<open>
  The loop of \<open>insert\<close>:
  \<^verbatim>\<open>for (iterator ptr = end() - 1; ptr != data() + index; ptr--) std::iter_swap(ptr, ptr - 1);\<close>
  with \<open>k\<close> the offset of \<^verbatim>\<open>ptr\<close>.  Stepping below the start of the block is undefined.
\<close>

function shift_down ::
  "addr option \<Rightarrow> nat \<Rightarrow> nat \<Rightarrow> 'a world \<Rightarrow> (failure + unit) \<times> 'a world" where
  "shift_down p k index w =
     (if k \<noteq> index then
        (if k = 0 then (Inl Undefined, w)
         else
           (case swap_at p k (k - 1) w of
              (Inl e, w1) \<Rightarrow> (Inl e, w1)
            | (Inr u, w1) \<Rightarrow> shift_down p (k - 1) index w1))
      else (Inr (), w))"
  by pat_completeness auto
termination
  by (relation "measure (\<lambda>(p, k, index, w). k)") auto

declare shift_down.simps [simp del]

text \<open>
  \<^verbatim>\<open>insert(const_iterator pos, const T& value)\<close>.  The difference \<^verbatim>\<open>pos - begin()\<close> is
  defined only for a pointer into the container's own block.
\<close>

definition insert ::
  "iterator \<Rightarrow> 'a cref \<Rightarrow> vec \<Rightarrow> 'a world \<Rightarrow> (failure + iterator) \<times> vec \<times> 'a world" where
  "insert pos value v w =
     (if fst pos \<noteq> fst (begin_it v) then (Inl Undefined, v, w)
      else
        (case push_back_lvalue value v w of
           (Inl e, v1, w1) \<Rightarrow> (Inl e, v1, w1)
         | (Inr u, v1, w1) \<Rightarrow>
             (case shift_down (data v1) (snd (end_it v1) - 1) (snd pos - snd (begin_it v)) w1 of
                (Inl e, w2) \<Rightarrow> (Inl e, v1, w2)
              | (Inr u, w2) \<Rightarrow> (Inr (data v1, snd pos - snd (begin_it v)), v1, w2))))"

text \<open>
  The first loop of \<open>erase\<close>:
  \<^verbatim>\<open>for (size_t i = 0; i < size() - l_index; i++) std::swap(data_[l_index + i], data_[f_index + i]);\<close>
  with \<open>n\<close> the bound \<^verbatim>\<open>size() - l_index\<close>.
\<close>

function swap_down ::
  "addr option \<Rightarrow> nat \<Rightarrow> nat \<Rightarrow> nat \<Rightarrow> nat \<Rightarrow> 'a world \<Rightarrow> (failure + unit) \<times> 'a world" where
  "swap_down p l_index f_index i n w =
     (if i < n then
        (case swap_at p (l_index + i) (f_index + i) w of
           (Inl e, w1) \<Rightarrow> (Inl e, w1)
         | (Inr u, w1) \<Rightarrow> swap_down p l_index f_index (Suc i) n w1)
      else (Inr (), w))"
  by pat_completeness auto
termination
  by (relation "measure (\<lambda>(p, l_index, f_index, i, n, w). n - i)") auto

declare swap_down.simps [simp del]

text \<open>
  \<^verbatim>\<open>erase(const_iterator first, const_iterator last)\<close>.  The three differences
  \<^verbatim>\<open>first - begin()\<close>, \<^verbatim>\<open>last - begin()\<close> and \<^verbatim>\<open>last - first\<close>, and \<^verbatim>\<open>size() - l_index\<close>,
  are meaningful only for \<open>begin() \<le> first \<le> last \<le> end()\<close>; anything else is undefined.
\<close>

definition erase ::
  "iterator \<Rightarrow> iterator \<Rightarrow> vec \<Rightarrow> 'a world \<Rightarrow> (failure + iterator) \<times> vec \<times> 'a world" where
  "erase first_it last_it v w =
     (if fst first_it \<noteq> fst (begin_it v) \<or> fst last_it \<noteq> fst (begin_it v)
         \<or> snd last_it < snd first_it \<or> size v < snd last_it
      then (Inl Undefined, v, w)
      else
        (case swap_down (m_data v) (snd last_it) (snd first_it) 0 (size v - snd last_it) w of
           (Inl e, w1) \<Rightarrow> (Inl e, v, w1)
         | (Inr u, w1) \<Rightarrow>
             (case pop_back_times (snd last_it - snd first_it) v w1 of
                (Inl e, v1, w2) \<Rightarrow> (Inl e, v1, w2)
              | (Inr u, v1, w2) \<Rightarrow> (Inr (fst (begin_it v1), snd first_it), v1, w2))))"

text \<open>\<^verbatim>\<open>erase(const_iterator pos)\<close> is \<^verbatim>\<open>erase(pos, pos + 1)\<close>.\<close>

definition erase_one ::
  "iterator \<Rightarrow> vec \<Rightarrow> 'a world \<Rightarrow> (failure + iterator) \<times> vec \<times> 'a world" where
  "erase_one pos v w = erase pos (advance pos 1) v w"

section \<open>Programs over several containers\<close>

text \<open>
  A program state is the list of the container objects that are alive, together with
  the world.  A call names its objects by position in that list, so that
  \<^verbatim>\<open>a = a\<close> and \<^verbatim>\<open>a = b\<close> are told apart the way \<^verbatim>\<open>&other == this\<close> tells them apart.
  Iterators and references are passed as the code receives them, valid or not.
  \<open>Arm_Faults\<close> plants the fault plan for the calls that follow, as a test harness does.
  A call has no successor state when it names an object that does not exist or when its
  behaviour is undefined; a call that throws has one, the state the exception leaves.
\<close>

datatype 'a call =
    Default_Construct
  | Copy_Construct_From nat
  | Move_Construct_From nat
  | Assign_Copy nat nat
  | Assign_Move nat nat
  | Destroy_Object nat
  | Push_Back nat 'a
  | Push_Back_Lvalue nat "'a cref"
  | Pop_Back nat
  | Reserve nat nat
  | Shrink_To_Fit nat
  | Clear nat
  | Swap nat nat
  | Insert nat iterator "'a cref"
  | Erase_One nat iterator
  | Erase nat iterator iterator
  | Arm_Faults "bool list"

text \<open>The state after a member function of object \<open>i\<close> has ended with the given outcome.\<close>

definition after_member ::
  "nat \<Rightarrow> vec list \<Rightarrow> (failure + 'r) \<times> vec \<times> 'a world \<Rightarrow> (vec list \<times> 'a world) option" where
  "after_member i vs res =
     (case res of (r, v', w') \<Rightarrow> if r = Inl Undefined then None else Some (vs[i := v'], w'))"

fun run :: "'a call \<Rightarrow> vec list \<times> 'a world \<Rightarrow> (vec list \<times> 'a world) option" where
  "run Default_Construct (vs, w) = Some (vs @ [vector_default], w)"
| "run (Copy_Construct_From j) (vs, w) =
     (if j < length vs then
        (case vector_copy (vs ! j) w of
           (Inl e, w') \<Rightarrow> if e = Undefined then None else Some (vs, w')
         | (Inr c, w') \<Rightarrow> Some (vs @ [c], w'))
      else None)"
| "run (Move_Construct_From j) (vs, w) =
     (if j < length vs then
        (case vector_move (vs ! j) of (c, left) \<Rightarrow> Some (vs[j := left] @ [c], w))
      else None)"
| "run (Assign_Copy i j) (vs, w) =
     (if i < length vs \<and> j < length vs then
        after_member i vs (assign_copy (if i = j then Self else Other (vs ! j)) (vs ! i) w)
      else None)"
| "run (Assign_Move i j) (vs, w) =
     (if i < length vs \<and> j < length vs then
        (case assign_move (if i = j then Self else Other (vs ! j)) (vs ! i) w of
           (r, v', left, w') \<Rightarrow>
             if r = Inl Undefined then None
             else Some ((case left of Self \<Rightarrow> vs | Other ov \<Rightarrow> vs[j := ov])[i := v'], w'))
      else None)"
| "run (Destroy_Object i) (vs, w) =
     (if i < length vs then
        (case vector_destroy (vs ! i) w of
           (Inl e, w') \<Rightarrow> None
         | (Inr u, w') \<Rightarrow> Some (take i vs @ drop (Suc i) vs, w'))
      else None)"
| "run (Push_Back i x) (vs, w) =
     (if i < length vs then after_member i vs (push_back x (vs ! i) w) else None)"
| "run (Push_Back_Lvalue i r) (vs, w) =
     (if i < length vs then after_member i vs (push_back_lvalue r (vs ! i) w) else None)"
| "run (Pop_Back i) (vs, w) =
     (if i < length vs then after_member i vs (pop_back (vs ! i) w) else None)"
| "run (Reserve i n) (vs, w) =
     (if i < length vs then after_member i vs (reserve n (vs ! i) w) else None)"
| "run (Shrink_To_Fit i) (vs, w) =
     (if i < length vs then after_member i vs (shrink_to_fit (vs ! i) w) else None)"
| "run (Clear i) (vs, w) =
     (if i < length vs then after_member i vs (clear (vs ! i) w) else None)"
| "run (Swap i j) (vs, w) =
     (if i < length vs \<and> j < length vs then
        (case swap (vs ! i) (vs ! j) of (a, b) \<Rightarrow> Some (vs[j := b, i := a], w))
      else None)"
| "run (Insert i pos r) (vs, w) =
     (if i < length vs then after_member i vs (insert pos r (vs ! i) w) else None)"
| "run (Erase_One i pos) (vs, w) =
     (if i < length vs then after_member i vs (erase_one pos (vs ! i) w) else None)"
| "run (Erase i first_it last_it) (vs, w) =
     (if i < length vs then after_member i vs (erase first_it last_it (vs ! i) w) else None)"
| "run (Arm_Faults fs) (vs, w) = Some (vs, w\<lparr>faults := fs\<rparr>)"

fun run_all :: "'a call list \<Rightarrow> vec list \<times> 'a world \<Rightarrow> (vec list \<times> 'a world) option" where
  "run_all [] s = Some s"
| "run_all (c # cs) s = (case run c s of None \<Rightarrow> None | Some s' \<Rightarrow> run_all cs s')"

text \<open>The start of every program: no container yet, nothing allocated.\<close>

definition initial :: "vec list \<times> 'a world" where
  "initial = ([], \<lparr>heap = [], faults = [], trace = []\<rparr>)"

text \<open>The invariant of the members.\<close>

definition invariant :: "vec \<Rightarrow> bool" where
  "invariant v =
     (size v \<le> capacity v \<and> (capacity v = 0 \<longrightarrow> data v = None \<and> size v = 0))"

section \<open>What a container holds\<close>

text \<open>
  A block of capacity \<open>cap\<close> whose first slots carry the elements \<open>xs\<close> and whose other
  slots are raw.
\<close>

definition layout :: "'a list \<Rightarrow> nat \<Rightarrow> 'a block" where
  "layout xs cap = map Some xs @ replicate (cap - length xs) None"

text \<open>
  \<open>holds w v xs\<close>: in world \<open>w\<close> the container with members \<open>v\<close> is well formed and its
  elements, in index order, are \<open>xs\<close>.  A container without a block has capacity zero;
  one with a block owns an allocated block of exactly \<open>capacity\<close> slots, of which the
  first \<open>size\<close> are live.
\<close>

definition holds :: "'a world \<Rightarrow> vec \<Rightarrow> 'a list \<Rightarrow> bool" where
  "holds w v xs =
     (m_size v = length xs \<and> length xs \<le> m_capacity v \<and>
      (case m_data v of
         None \<Rightarrow> m_capacity v = 0
       | Some a \<Rightarrow> 0 < m_capacity v \<and> a < length (heap w) \<and>
                   heap w ! a = Some (layout xs (m_capacity v))))"

text \<open>The heap with the block at pointer \<open>p\<close> replaced; nothing changes for the null pointer.\<close>

definition with_block :: "addr option \<Rightarrow> 'a block option \<Rightarrow> 'a block option list \<Rightarrow> 'a block option list" where
  "with_block p b h = (case p of None \<Rightarrow> h | Some a \<Rightarrow> h[a := b])"

text \<open>
  \<open>frame p w w'\<close>: from \<open>w\<close> to \<open>w'\<close> no block was lost, and every block that existed,
  other than the one at \<open>p\<close>, is untouched.
\<close>

definition frame :: "addr option \<Rightarrow> 'a world \<Rightarrow> 'a world \<Rightarrow> bool" where
  "frame p w w' =
     (length (heap w) \<le> length (heap w') \<and>
      (\<forall>s<length (heap w). Some s \<noteq> p \<longrightarrow> heap w' ! s = heap w ! s))"

text \<open>
  What a member function may do: leave its container well formed, touch no block but its
  own, and keep its block or move to a fresh one or to none.
\<close>

definition step_ok :: "'a world \<Rightarrow> vec \<Rightarrow> 'a world \<Rightarrow> vec \<Rightarrow> bool" where
  "step_ok w v w' v' =
     ((\<exists>ys. holds w' v' ys) \<and> frame (m_data v) w w' \<and>
      (m_data v' = None \<or> m_data v' = m_data v \<or>
       (\<exists>a. m_data v' = Some a \<and> length (heap w) \<le> a)))"

text \<open>
  A program state is well formed when every container alive is well formed and no two
  of them share a block.
\<close>

definition well_formed :: "vec list \<times> 'a world \<Rightarrow> bool" where
  "well_formed s =
     ((\<forall>v\<in>set (fst s). \<exists>xs. holds (snd s) v xs) \<and>
      (\<forall>i<length (fst s). \<forall>j<length (fst s).
          i \<noteq> j \<longrightarrow> m_data (fst s ! i) = None \<or> m_data (fst s ! i) \<noteq> m_data (fst s ! j)))"

text \<open>No fault among the next \<open>k\<close> fault points.\<close>

definition passes :: "nat \<Rightarrow> bool list \<Rightarrow> bool" where
  "passes k fs = (True \<notin> set (take k fs))"

text \<open>The fault point number \<open>k\<close> (from zero) is the first one that throws.\<close>

definition throws_at :: "nat \<Rightarrow> bool list \<Rightarrow> bool" where
  "throws_at k fs = (passes k fs \<and> k < length fs \<and> fs ! k)"

section \<open>Fault plans, block layouts and the primitive operations\<close>

lemma fault_point_eq:
  "fault_point w = (faults w \<noteq> [] \<and> hd (faults w), w\<lparr>faults := tl (faults w)\<rparr>)"
  by (cases "faults w") (auto simp: fault_point_def)

lemma passes_0 [simp]: "passes 0 fs"
  by (simp add: passes_def)

lemma passes_Nil [simp]: "passes k []"
  by (simp add: passes_def)

lemma passes_Suc: "passes (Suc k) fs \<longleftrightarrow> (fs = [] \<or> \<not> hd fs \<and> passes k (tl fs))"
  by (cases fs) (auto simp: passes_def)

lemma passes_mono: "passes k fs \<Longrightarrow> j \<le> k \<Longrightarrow> passes j fs"
  unfolding passes_def using set_take_subset_set_take [of j k fs] by auto

lemma passes_add: "passes (j + k) fs \<longleftrightarrow> passes j fs \<and> passes k (drop j fs)"
  unfolding passes_def by (auto simp: take_add)

lemma throws_at_0: "throws_at 0 fs \<longleftrightarrow> fs \<noteq> [] \<and> hd fs"
  by (cases fs) (auto simp: throws_at_def)

lemma throws_at_Suc: "throws_at (Suc k) fs \<longleftrightarrow> fs \<noteq> [] \<and> \<not> hd fs \<and> throws_at k (tl fs)"
  by (cases fs) (auto simp: throws_at_def passes_Suc)

lemma passes_or_throws: "passes m fs \<or> (\<exists>k<m. throws_at k fs)"
proof (induction m arbitrary: fs)
  case 0
  show ?case by simp
next
  case (Suc m)
  show ?case
  proof (cases "fs = [] \<or> \<not> hd fs")
    case True
    from Suc.IH [of "tl fs"] show ?thesis
    proof
      assume "passes m (tl fs)"
      with True show ?thesis by (auto simp: passes_Suc)
    next
      assume "\<exists>k<m. throws_at k (tl fs)"
      then obtain k where "k < m" "throws_at k (tl fs)" by blast
      with True have "throws_at (Suc k) fs \<or> fs = []" by (auto simp: throws_at_Suc)
      with \<open>k < m\<close> show ?thesis
        by (cases "fs = []") auto
    qed
  next
    case False
    then have "throws_at 0 fs" by (simp add: throws_at_0)
    then show ?thesis by blast
  qed
qed

lemma passes_not_throws: "\<lbrakk>passes m fs; k < m; throws_at k fs\<rbrakk> \<Longrightarrow> False"
proof -
  assume p: "passes m fs" and k: "k < m" and t: "throws_at k fs"
  from t have "k < length fs" "fs ! k" by (auto simp: throws_at_def)
  with k have "k < length (take m fs)" "take m fs ! k = True" by auto
  then have "True \<in> set (take m fs)" by (metis nth_mem)
  with p show False by (simp add: passes_def)
qed

lemma fault_point_passes:
  "passes (Suc k) (faults w) \<Longrightarrow> fault_point w = (False, w\<lparr>faults := tl (faults w)\<rparr>)"
  by (auto simp: fault_point_eq passes_Suc)

lemma fault_point_throws:
  "throws_at 0 (faults w) \<Longrightarrow> fault_point w = (True, w\<lparr>faults := tl (faults w)\<rparr>)"
  by (auto simp: fault_point_eq throws_at_0)

lemma layout_length [simp]: "length xs \<le> cap \<Longrightarrow> length (layout xs cap) = cap"
  by (simp add: layout_def)

lemma layout_nth_live [simp]: "i < length xs \<Longrightarrow> layout xs cap ! i = Some (xs ! i)"
  by (simp add: layout_def nth_append)

lemma layout_nth_raw [simp]: "length xs \<le> i \<Longrightarrow> i < cap \<Longrightarrow> layout xs cap ! i = None"
  by (simp add: layout_def nth_append)

lemma layout_snoc:
  "length xs < cap \<Longrightarrow> (layout xs cap)[length xs := Some x] = layout (xs @ [x]) cap"
  by (cases "cap - length xs") (auto simp: layout_def list_update_append)

lemma layout_butlast:
  "xs \<noteq> [] \<Longrightarrow> length xs \<le> cap \<Longrightarrow>
     (layout xs cap)[length xs - 1 := None] = layout (butlast xs) cap"
proof (induction xs rule: rev_induct)
  case Nil
  then show ?case by simp
next
  case (snoc x xs)
  then have "cap - length xs = Suc (cap - Suc (length xs))" by simp
  then show ?case
    by (simp add: layout_def list_update_append)
qed

lemma layout_update:
  "i < length xs \<Longrightarrow> (layout xs cap)[i := Some y] = layout (xs[i := y]) cap"
  by (simp add: layout_def list_update_append map_update)

lemma layout_inject: "length xs = length ys \<Longrightarrow> layout xs cap = layout ys cap \<Longrightarrow> xs = ys"
  by (simp add: layout_def map_injective)


lemma construct_at_ok:
  assumes "a < length (heap w)" and "heap w ! a = Some b" and "i < length b"
    and "passes (Suc k) (faults w)"
  shows "construct_at mk (Some a) i x w =
    (Inr (), w\<lparr>heap := (heap w)[a := Some (b[i := Some x])], faults := tl (faults w),
                trace := trace w @ [mk a i x]\<rparr>)"
  using assms
  by (simp add: construct_at_def block_of_def fault_point_passes store_def log_def)

lemma construct_at_throws:
  assumes "a < length (heap w)" and "heap w ! a = Some b" and "i < length b"
    and "throws_at 0 (faults w)"
  shows "construct_at mk (Some a) i x w = (Inl Element_Threw, w\<lparr>faults := tl (faults w)\<rparr>)"
  using assms
  by (simp add: construct_at_def block_of_def fault_point_throws)

lemma destroy_at_ok:
  assumes "a < length (heap w)" and "heap w ! a = Some b" and "i < length b"
    and "b ! i = Some x"
  shows "destroy_at (Some a) i w =
    (Inr (), w\<lparr>heap := (heap w)[a := Some (b[i := None])], trace := trace w @ [Destroy a i x]\<rparr>)"
  using assms
  by (simp add: destroy_at_def live_def block_of_def store_def log_def)

lemma swap_at_ok:
  assumes "a < length (heap w)" and "heap w ! a = Some b" and "i < length b" and "j < length b"
    and "b ! i = Some x" and "b ! j = Some y"
  shows "swap_at (Some a) i j w =
    (Inr (), w\<lparr>heap := (heap w)[a := Some (b[i := Some y, j := Some x])]\<rparr>)"
  using assms
  by (simp add: swap_at_def live_def block_of_def store_def)

lemma live_layout:
  assumes "a < length (heap w)" and "heap w ! a = Some (layout xs cap)" and "i < length xs"
    and "length xs \<le> cap"
  shows "live w (Some a) i = Some (xs ! i)"
  using assms by (simp add: live_def block_of_def)

lemma destroy_down_layout:
  assumes "a < length (heap w)" and "heap w ! a = Some (layout zs n)" and "length zs \<le> n"
  shows "destroy_down (Some a) (length zs) w =
    (Inr (), w\<lparr>heap := (heap w)[a := Some (layout [] n)],
                trace := trace w @ map (\<lambda>j. Destroy a j (zs ! j)) (rev [0..<length zs])\<rparr>)"
  using assms
proof (induction zs arbitrary: w rule: rev_induct)
  case Nil
  then have "(heap w)[a := Some (layout [] n)] = heap w"
    by (metis list_update_id)
  then show ?case by simp
next
  case (snoc z zs)
  let ?w1 = "w\<lparr>heap := (heap w)[a := Some (layout zs n)],
               trace := trace w @ [Destroy a (length zs) z]\<rparr>"
  from snoc.prems have len: "length zs < n" by simp
  have "(layout (zs @ [z]) n)[length zs := None] = layout zs n"
    using layout_butlast [of "zs @ [z]" n] snoc.prems by simp
  with snoc.prems len have d: "destroy_at (Some a) (length zs) w = (Inr (), ?w1)"
    by (subst destroy_at_ok [where b = "layout (zs @ [z]) n" and x = z]) auto
  have ih: "destroy_down (Some a) (length zs) ?w1 =
    (Inr (), ?w1\<lparr>heap := (heap ?w1)[a := Some (layout [] n)],
                trace := trace ?w1 @ map (\<lambda>j. Destroy a j (zs ! j)) (rev [0..<length zs])\<rparr>)"
    using snoc.prems len by (intro snoc.IH) auto
  have m: "map (\<lambda>j. Destroy a j ((zs @ [z]) ! j)) (rev [0..<length zs]) =
           map (\<lambda>j. Destroy a j (zs ! j)) (rev [0..<length zs])"
    by (rule map_cong) (auto simp: nth_append)
  show ?case
    by (simp add: d ih m)
qed

lemma layout_take_Suc:
  assumes "i < length xs" and "length xs \<le> n"
  shows "(layout (take i xs) n)[i := Some (xs ! i)] = layout (take (Suc i) xs) n"
  using layout_snoc [of "take i xs" n "xs ! i"] assms
  by (simp add: take_Suc_conv_app_nth)


lemma holds_frame:
  assumes "holds w v xs" and "length (heap w) \<le> length (heap w')"
    and "\<And>s. m_data v = Some s \<Longrightarrow> heap w' ! s = heap w ! s"
  shows "holds w' v xs"
  using assms by (auto simp: holds_def split: option.splits)

lemma holds_live:
  assumes "holds w v xs" and "i < length xs"
  shows "live w (m_data v) i = Some (xs ! i)"
  using assms by (auto simp: holds_def live_def block_of_def split: option.splits)

lemma copy_elements_ok:
  assumes "holds w other xs" and "m_data other \<noteq> Some a"
    and "a < length (heap w)" and "heap w ! a = Some (layout (take i xs) n)"
    and "i \<le> length xs" and "length xs \<le> n" and "passes (length xs - i) (faults w)"
  shows "copy_elements (Some a) other i w =
    (Inr (), w\<lparr>heap := (heap w)[a := Some (layout xs n)],
                faults := drop (length xs - i) (faults w),
                trace := trace w @ map (\<lambda>k. Copy_Construct a k (xs ! k)) [i..<length xs]\<rparr>)"
  using assms
proof (induction "length xs - i" arbitrary: i w)
  case 0
  then have "i = length xs" by simp
  moreover from 0 have "m_size other = length xs" by (simp add: holds_def)
  moreover from 0 \<open>i = length xs\<close> have "(heap w)[a := Some (layout xs n)] = heap w"
    by (simp add: list_update_same_conv)
  ultimately show ?case
    by (simp add: copy_elements.simps)
next
  case (Suc m)
  then have i: "i < length xs" and m: "length xs - Suc i = m" by auto
  from Suc.prems have sz: "m_size other = length xs" by (simp add: holds_def)
  let ?w1 = "w\<lparr>heap := (heap w)[a := Some (layout (take (Suc i) xs) n)],
               faults := tl (faults w),
               trace := trace w @ [Copy_Construct a i (xs ! i)]\<rparr>"
  from Suc.prems(7) Suc.hyps(2) have p: "passes (Suc m) (faults w)" by simp
  have "length (layout (take i xs) n) = n" using Suc.prems i by simp
  with Suc.prems i p have c: "construct_at Copy_Construct (Some a) i (xs ! i) w = (Inr (), ?w1)"
    by (subst construct_at_ok [where b = "layout (take i xs) n" and k = m])
       (auto simp: layout_take_Suc)
  have h1: "holds ?w1 other xs"
    using Suc.prems(1) by (rule holds_frame) (use Suc.prems(2) in auto)
  from p have p1: "passes (length xs - Suc i) (faults ?w1)"
    by (auto simp: passes_Suc m)
  have ih: "copy_elements (Some a) other (Suc i) ?w1 =
    (Inr (), ?w1\<lparr>heap := (heap ?w1)[a := Some (layout xs n)],
                faults := drop (length xs - Suc i) (faults ?w1),
                trace := trace ?w1 @ map (\<lambda>k. Copy_Construct a k (xs ! k)) [Suc i..<length xs]\<rparr>)"
    using m h1 Suc.prems(2) Suc.prems(3) i Suc.prems(6) p1
    by (intro Suc.hyps(1)) auto
  have d: "drop (length xs - i) (faults w) = drop m (tl (faults w))"
    using Suc.hyps(2) [symmetric] by (simp add: drop_Suc)
  show ?case
    using i by (subst copy_elements.simps)
      (simp add: sz holds_live [OF Suc.prems(1)] c ih m d upt_conv_Cons)
qed

lemma copy_elements_throws:
  assumes "holds w other xs" and "m_data other \<noteq> Some a"
    and "a < length (heap w)" and "heap w ! a = Some (layout (take i xs) n)"
    and "i + k < length xs" and "length xs \<le> n" and "throws_at k (faults w)"
  shows "copy_elements (Some a) other i w =
    (Inl Element_Threw,
     w\<lparr>heap := (heap w)[a := None],
       faults := drop (Suc k) (faults w),
       trace := trace w @ map (\<lambda>j. Copy_Construct a j (xs ! j)) [i..<i + k]
                @ map (\<lambda>j. Destroy a j (xs ! j)) (rev [0..<i + k]) @ [Deallocate a]\<rparr>)"
  using assms
proof (induction k arbitrary: i w)
  case 0
  then have i: "i < length xs" by simp
  from 0 have sz: "m_size other = length xs" by (simp add: holds_def)
  let ?w1 = "w\<lparr>faults := tl (faults w)\<rparr>"
  have "length (layout (take i xs) n) = n" using 0 i by simp
  with 0 i have c: "construct_at Copy_Construct (Some a) i (xs ! i) w = (Inl Element_Threw, ?w1)"
    by (subst construct_at_throws [where b = "layout (take i xs) n"]) auto
  have "destroy_down (Some a) (length (take i xs)) ?w1 =
    (Inr (), ?w1\<lparr>heap := (heap ?w1)[a := Some (layout [] n)],
                trace := trace ?w1 @ map (\<lambda>j. Destroy a j (take i xs ! j)) (rev [0..<length (take i xs)])\<rparr>)"
    using 0 i by (intro destroy_down_layout) auto
  moreover have "map (\<lambda>j. Destroy a j (take i xs ! j)) (rev [0..<i]) =
      map (\<lambda>j. Destroy a j (xs ! j)) (rev [0..<i])"
    by (rule map_cong) auto
  moreover have "length (take i xs) = i" using i by simp
  ultimately have dd: "destroy_down (Some a) i ?w1 =
    (Inr (), ?w1\<lparr>heap := (heap ?w1)[a := Some (layout [] n)],
                trace := trace ?w1 @ map (\<lambda>j. Destroy a j (xs ! j)) (rev [0..<i])\<rparr>)"
    by simp
  show ?case
    using i by (subst copy_elements.simps)
      (simp add: sz holds_live [OF 0(1)] c dd operator_delete_def log_def drop_Suc)
next
  case (Suc k)
  then have i: "i < length xs" by simp
  from Suc.prems have sz: "m_size other = length xs" by (simp add: holds_def)
  let ?w1 = "w\<lparr>heap := (heap w)[a := Some (layout (take (Suc i) xs) n)],
               faults := tl (faults w),
               trace := trace w @ [Copy_Construct a i (xs ! i)]\<rparr>"
  from Suc.prems(7) have p: "passes (Suc 0) (faults w)" and t: "throws_at k (tl (faults w))"
    by (auto simp: throws_at_Suc passes_Suc)
  have "length (layout (take i xs) n) = n" using Suc.prems i by simp
  with Suc.prems i p have c: "construct_at Copy_Construct (Some a) i (xs ! i) w = (Inr (), ?w1)"
    by (subst construct_at_ok [where b = "layout (take i xs) n" and k = 0])
       (auto simp: layout_take_Suc)
  have h1: "holds ?w1 other xs"
    using Suc.prems(1) by (rule holds_frame) (use Suc.prems(2) in auto)
  have ih: "copy_elements (Some a) other (Suc i) ?w1 =
    (Inl Element_Threw,
     ?w1\<lparr>heap := (heap ?w1)[a := None],
       faults := drop (Suc k) (faults ?w1),
       trace := trace ?w1 @ map (\<lambda>j. Copy_Construct a j (xs ! j)) [Suc i..<Suc i + k]
                @ map (\<lambda>j. Destroy a j (xs ! j)) (rev [0..<Suc i + k]) @ [Deallocate a]\<rparr>)"
    using h1 Suc.prems(2) Suc.prems(3) Suc.prems(5) Suc.prems(6) t
    by (intro Suc.IH) auto
  have d: "drop (Suc (Suc k)) (faults w) = drop (Suc k) (tl (faults w))"
    by (simp add: drop_Suc)
  have u: "[i..<Suc (i + k)] = i # [Suc i..<Suc (i + k)]"
    by (simp add: upt_conv_Cons del: upt_Suc)
  show ?case
    using i by (subst copy_elements.simps)
      (simp add: sz holds_live [OF Suc.prems(1)] c ih d u del: upt_Suc drop_Suc_Cons)
qed


lemma operator_new_ok:
  assumes "passes (Suc k) (faults w)"
  shows "operator_new n w =
    (Inr (length (heap w)),
     w\<lparr>heap := heap w @ [Some (layout [] n)], faults := tl (faults w),
       trace := trace w @ [Allocate (length (heap w)) n]\<rparr>)"
  using assms by (simp add: operator_new_def fault_point_passes log_def layout_def)

lemma operator_new_throws:
  assumes "throws_at 0 (faults w)"
  shows "operator_new n w = (Inl Bad_Alloc, w\<lparr>faults := tl (faults w)\<rparr>)"
  using assms by (simp add: operator_new_def fault_point_throws)

lemma holds_data_bound: "holds w v xs \<Longrightarrow> m_data v = Some s \<Longrightarrow> s < length (heap w)"
  by (simp add: holds_def)

lemma holds_extend:
  assumes "holds w v xs" and "heap w' = heap w @ bs"
  shows "holds w' v xs"
  using assms(1)
  by (rule holds_frame) (use assms in \<open>auto simp: nth_append dest: holds_data_bound\<close>)

lemma vector_with_capacity_ok:
  assumes "holds w v xs" and "length xs \<le> n" and "0 < n"
    and "passes (Suc (length xs)) (faults w)"
  shows "vector_with_capacity (Other v) n w =
    (Inr \<lparr>m_data = Some (length (heap w)), m_size = length xs, m_capacity = n\<rparr>,
     w\<lparr>heap := heap w @ [Some (layout xs n)],
       faults := drop (Suc (length xs)) (faults w),
       trace := trace w @ Allocate (length (heap w)) n
                # map (\<lambda>k. Copy_Construct (length (heap w)) k (xs ! k)) [0..<length xs]\<rparr>)"
proof -
  let ?a = "length (heap w)"
  let ?w1 = "w\<lparr>heap := heap w @ [Some (layout [] n)], faults := tl (faults w),
       trace := trace w @ [Allocate ?a n]\<rparr>"
  have new: "operator_new n w = (Inr ?a, ?w1)"
    using assms(4) by (rule operator_new_ok)
  have h1: "holds ?w1 v xs"
    using assms(1) by (rule holds_extend) simp
  have ne: "m_data v \<noteq> Some ?a"
    using holds_data_bound [OF assms(1)] by auto
  from assms(4) have p: "passes (length xs - 0) (faults ?w1)"
    by (auto simp: passes_Suc)
  have "copy_elements (Some ?a) v 0 ?w1 =
    (Inr (), ?w1\<lparr>heap := (heap ?w1)[?a := Some (layout xs n)],
                faults := drop (length xs - 0) (faults ?w1),
                trace := trace ?w1 @ map (\<lambda>k. Copy_Construct ?a k (xs ! k)) [0..<length xs]\<rparr>)"
    using h1 ne _ _ _ assms(2) p by (rule copy_elements_ok) auto
  moreover have "m_size v = length xs"
    using assms(1) by (simp add: holds_def)
  ultimately show ?thesis
    using assms(3) by (simp add: vector_with_capacity_def new drop_Suc)
qed

lemma vector_with_capacity_bad_alloc:
  assumes "0 < n" and "throws_at 0 (faults w)"
  shows "vector_with_capacity (Other v) n w = (Inl Bad_Alloc, w\<lparr>faults := tl (faults w)\<rparr>)"
  using assms by (simp add: vector_with_capacity_def operator_new_throws)

lemma vector_with_capacity_throws:
  assumes "holds w v xs" and "length xs \<le> n" and "0 < n"
    and "throws_at (Suc k) (faults w)" and "k < length xs"
  shows "vector_with_capacity (Other v) n w =
    (Inl Element_Threw,
     w\<lparr>heap := heap w @ [None],
       faults := drop (Suc (Suc k)) (faults w),
       trace := trace w @ Allocate (length (heap w)) n
                # map (\<lambda>j. Copy_Construct (length (heap w)) j (xs ! j)) [0..<k]
                @ map (\<lambda>j. Destroy (length (heap w)) j (xs ! j)) (rev [0..<k])
                @ [Deallocate (length (heap w))]\<rparr>)"
proof -
  let ?a = "length (heap w)"
  let ?w1 = "w\<lparr>heap := heap w @ [Some (layout [] n)], faults := tl (faults w),
       trace := trace w @ [Allocate ?a n]\<rparr>"
  from assms(4) have p: "passes (Suc 0) (faults w)" and t: "throws_at k (faults ?w1)"
    by (auto simp: throws_at_Suc passes_Suc)
  have new: "operator_new n w = (Inr ?a, ?w1)"
    using p by (rule operator_new_ok)
  have h1: "holds ?w1 v xs"
    using assms(1) by (rule holds_extend) simp
  have ne: "m_data v \<noteq> Some ?a"
    using holds_data_bound [OF assms(1)] by auto
  have "copy_elements (Some ?a) v 0 ?w1 =
    (Inl Element_Threw,
     ?w1\<lparr>heap := (heap ?w1)[?a := None],
       faults := drop (Suc k) (faults ?w1),
       trace := trace ?w1 @ map (\<lambda>j. Copy_Construct ?a j (xs ! j)) [0..<0 + k]
                @ map (\<lambda>j. Destroy ?a j (xs ! j)) (rev [0..<0 + k]) @ [Deallocate ?a]\<rparr>)"
    using h1 ne _ _ _ assms(2) t by (rule copy_elements_throws) (use assms(5) in auto)
  then show ?thesis
    using assms(3) by (simp add: vector_with_capacity_def new drop_Suc)
qed

section \<open>Copy construction\<close>

text \<open>
  Claim C3.  For a well-formed source \<open>s\<close> holding the elements \<open>xs\<close>: the copy constructor
  returns normally whenever none of its fault points throws (the allocation and one copy
  per element), and whenever it returns normally the new container has size \<open>s.size()\<close>,
  capacity exactly \<open>s.size()\<close>, holds the same elements index by index in a block of its
  own, the source still holds \<open>xs\<close>, and the trace gained exactly one allocation of
  \<open>s.size()\<close> slots followed by the copy constructions at indices \<open>0, 1, ...\<close> in
  increasing order.  An empty source gives the default state without any allocation.
\<close>

theorem copy_constructor_copies:
  assumes "holds w s xs"
  shows "(passes (Suc (length xs)) (faults w) \<longrightarrow> (\<exists>c w'. vector_copy s w = (Inr c, w'))) \<and>
    (vector_copy s w = (Inr c, w') \<longrightarrow>
       size c = size s \<and> capacity c = size s \<and> holds w' c xs \<and> holds w' s xs \<and>
       (\<forall>i<size s. at w' c i = Inr (xs ! i) \<and> at w' s i = Inr (xs ! i)) \<and>
       (if xs = [] then c = vector_default \<and> trace w' = trace w
        else data c = Some (length (heap w)) \<and> data c \<noteq> data s \<and>
             trace w' = trace w @ Allocate (length (heap w)) (length xs)
               # map (\<lambda>i. Copy_Construct (length (heap w)) i (xs ! i)) [0..<length xs]))"
proof (cases "xs = []")
  case True
  with assms have "m_size s = 0" by (simp add: holds_def)
  then have "vector_copy s w = (Inr vector_default, w)"
    by (simp add: vector_copy_def vector_with_capacity_def)
  with True assms \<open>m_size s = 0\<close> show ?thesis
    by (auto simp: holds_def vector_default_def size_def capacity_def)
next
  case False
  from assms have sz: "m_size s = length xs" by (simp add: holds_def)
  let ?a = "length (heap w)"
  let ?c = "\<lparr>m_data = Some ?a, m_size = length xs, m_capacity = length xs\<rparr>"
  let ?w' = "w\<lparr>heap := heap w @ [Some (layout xs (length xs))],
       faults := drop (Suc (length xs)) (faults w),
       trace := trace w @ Allocate ?a (length xs)
                # map (\<lambda>k. Copy_Construct ?a k (xs ! k)) [0..<length xs]\<rparr>"
  have ok: "vector_copy s w = (Inr ?c, ?w')" if "passes (Suc (length xs)) (faults w)"
    unfolding vector_copy_def sz
    using assms _ _ that by (rule vector_with_capacity_ok) (use False in auto)
  have no: "vector_copy s w \<noteq> (Inr c, w')" if "\<not> passes (Suc (length xs)) (faults w)"
  proof -
    from that passes_or_throws [of "Suc (length xs)" "faults w"]
    obtain k where k: "k < Suc (length xs)" "throws_at k (faults w)" by blast
    show ?thesis
    proof (cases k)
      case 0
      with k False show ?thesis
        by (simp add: vector_copy_def sz vector_with_capacity_bad_alloc)
    next
      case (Suc j)
      with k have "vector_with_capacity (Other s) (length xs) w =
        (Inl Element_Threw,
         w\<lparr>heap := heap w @ [None], faults := drop (Suc (Suc j)) (faults w),
           trace := trace w @ Allocate ?a (length xs)
                # map (\<lambda>i. Copy_Construct ?a i (xs ! i)) [0..<j]
                @ map (\<lambda>i. Destroy ?a i (xs ! i)) (rev [0..<j]) @ [Deallocate ?a]\<rparr>)"
        using False by (intro vector_with_capacity_throws [OF assms]) auto
      then show ?thesis
        by (simp add: vector_copy_def sz)
    qed
  qed
  have hc: "holds ?w' ?c xs"
    using False by (simp add: holds_def)
  have hs: "holds ?w' s xs"
    using assms by (rule holds_extend) simp
  have ne: "m_data s \<noteq> Some ?a"
    using holds_data_bound [OF assms] by auto
  have at_eq: "at ?w' ?c i = Inr (xs ! i) \<and> at ?w' s i = Inr (xs ! i)" if "i < length xs" for i
    using that holds_live [OF hc that] holds_live [OF hs that]
    by (simp add: at_def sz)
  show ?thesis
  proof (cases "passes (Suc (length xs)) (faults w)")
    case True
    from ok [OF True] hc hs at_eq ne False show ?thesis
      by (auto simp: size_def capacity_def data_def sz)
  next
    case nf: False
    from no [OF nf] nf show ?thesis by simp
  qed
qed


theorem copy_constructor_copies_witness:
  "holds \<lparr>heap = [Some [Some 5, Some 7, None]], faults = [], trace = []\<rparr>
         \<lparr>m_data = Some 0, m_size = 2, m_capacity = 3\<rparr> [5, 7 :: nat] \<and>
   vector_copy \<lparr>m_data = Some 0, m_size = 2, m_capacity = 3\<rparr>
       \<lparr>heap = [Some [Some 5, Some 7, None]], faults = [], trace = []\<rparr> =
     (Inr \<lparr>m_data = Some 1, m_size = 2, m_capacity = 2\<rparr>,
      \<lparr>heap = [Some [Some 5, Some 7, None], Some [Some 5, Some (7 :: nat)]], faults = [],
        trace = [Allocate 1 2, Copy_Construct 1 0 5, Copy_Construct 1 1 7]\<rparr>) \<and>
   capacity \<lparr>m_data = Some 1, m_size = 2, m_capacity = 2\<rparr> = 2 \<and>
   holds \<lparr>heap = [Some [Some 5, Some 7, None], Some [Some 5, Some 7]], faults = [],
        trace = [Allocate 1 2, Copy_Construct 1 0 5, Copy_Construct 1 1 7]\<rparr>
     \<lparr>m_data = Some 1, m_size = 2, m_capacity = 2\<rparr> [5, 7 :: nat]"
proof -
  let ?w = "\<lparr>heap = [Some [Some 5, Some 7, None]], faults = [], trace = []\<rparr> :: nat world"
  let ?s = "\<lparr>m_data = Some 0, m_size = 2, m_capacity = 3\<rparr>"
  let ?c = "\<lparr>m_data = Some 1, m_size = 2, m_capacity = 2\<rparr>"
  let ?w' = "\<lparr>heap = [Some [Some 5, Some 7, None], Some [Some 5, Some 7]], faults = [],
        trace = [Allocate 1 2, Copy_Construct 1 0 5, Copy_Construct 1 1 7]\<rparr> :: nat world"
  have h: "holds ?w ?s [5, 7]"
    by (simp add: holds_def layout_def)
  have r: "vector_copy ?s ?w = (Inr ?c, ?w')"
    by code_simp
  from copy_constructor_copies [OF h, of ?c ?w'] r
  have "capacity ?c = size ?s \<and> holds ?w' ?c [5, 7]"
    by blast
  with h r show ?thesis
    by (simp add: size_def)
qed

text \<open>
  Claim C4.  Let the source hold \<open>xs\<close> and let the copy of the element at index \<open>i\<close> be
  the first operation to fail (fault point \<open>0\<close> is the allocation, fault point \<open>j + 1\<close>
  the copy of element \<open>j\<close>).  Then the copy constructor throws the element's exception;
  the trace shows the allocation, the copies at \<open>0, ..., i - 1\<close>, the destructions of
  exactly these elements at \<open>i - 1, ..., 0\<close>, and the release of the new block; the heap
  is the old heap plus one released block, so nothing leaks; the source still holds
  \<open>xs\<close>.
\<close>

theorem copy_constructor_rolls_back:
  assumes "holds w s xs" and "i < length xs" and "throws_at (Suc i) (faults w)"
  shows "\<exists>w'. vector_copy s w = (Inl Element_Threw, w') \<and>
      trace w' = trace w @ Allocate (length (heap w)) (length xs)
                # map (\<lambda>j. Copy_Construct (length (heap w)) j (xs ! j)) [0..<i]
                @ map (\<lambda>j. Destroy (length (heap w)) j (xs ! j)) (rev [0..<i])
                @ [Deallocate (length (heap w))] \<and>
      heap w' = heap w @ [None] \<and> holds w' s xs"
proof -
  from assms(1) have sz: "m_size s = length xs" by (simp add: holds_def)
  let ?w' = "w\<lparr>heap := heap w @ [None],
       faults := drop (Suc (Suc i)) (faults w),
       trace := trace w @ Allocate (length (heap w)) (length xs)
                # map (\<lambda>j. Copy_Construct (length (heap w)) j (xs ! j)) [0..<i]
                @ map (\<lambda>j. Destroy (length (heap w)) j (xs ! j)) (rev [0..<i])
                @ [Deallocate (length (heap w))]\<rparr>"
  have "vector_copy s w = (Inl Element_Threw, ?w')"
    unfolding vector_copy_def sz
    using assms(1) _ _ assms(3) assms(2) by (rule vector_with_capacity_throws) (use assms(2) in auto)
  moreover have "holds ?w' s xs"
    using assms(1) by (rule holds_extend) simp
  ultimately show ?thesis by simp
qed

theorem copy_constructor_rolls_back_witness:
  "holds \<lparr>heap = [Some [Some 5, Some 7, Some 9]], faults = [False, False, True], trace = []\<rparr>
         \<lparr>m_data = Some 0, m_size = 3, m_capacity = 3\<rparr> [5, 7, 9 :: nat] \<and>
   throws_at 2 [False, False, True] \<and>
   (\<exists>w'. vector_copy \<lparr>m_data = Some 0, m_size = 3, m_capacity = 3\<rparr>
       \<lparr>heap = [Some [Some 5, Some 7, Some 9]], faults = [False, False, True], trace = []\<rparr> =
       (Inl Element_Threw, w') \<and>
     trace w' = [Allocate 1 3, Copy_Construct 1 0 5, Destroy 1 0 5, Deallocate 1] \<and>
     heap w' = [Some [Some 5, Some 7, Some (9 :: nat)], None])"
proof -
  let ?w = "\<lparr>heap = [Some [Some 5, Some 7, Some 9]], faults = [False, False, True],
              trace = []\<rparr> :: nat world"
  let ?s = "\<lparr>m_data = Some 0, m_size = 3, m_capacity = 3\<rparr>"
  have h: "holds ?w ?s [5, 7, 9]"
    by (simp add: holds_def layout_def)
  have t: "throws_at (Suc (Suc 0)) (faults ?w)"
    by (simp add: throws_at_def passes_def)
  have i: "Suc 0 < length [5, 7, 9 :: nat]"
    by simp
  from copy_constructor_rolls_back [OF h i t]
  have "\<exists>w'. vector_copy ?s ?w = (Inl Element_Threw, w') \<and>
     trace w' = [Allocate 1 3, Copy_Construct 1 0 5, Destroy 1 0 5, Deallocate 1] \<and>
     heap w' = [Some [Some 5, Some 7, Some 9], None]"
    by auto
  with h t show ?thesis
    by (simp add: numeral_2_eq_2)
qed

section \<open>Destruction and the swap idiom\<close>

lemma holds_data:
  assumes "holds w v xs" and "xs \<noteq> []"
  obtains a where "m_data v = Some a" and "a < length (heap w)"
    and "heap w ! a = Some (layout xs (m_capacity v))"
  using assms by (cases "m_data v") (auto simp: holds_def)

lemma with_block_simps [simp]:
  "with_block None b h = h" "with_block (Some a) b h = h[a := b]"
  by (simp_all add: with_block_def)

lemma length_with_block [simp]: "length (with_block p b h) = length h"
  by (cases p) auto

lemma pop_back_holds:
  assumes "holds w v xs" and "xs \<noteq> []"
  shows "\<exists>t. pop_back v w =
    (Inr (), v\<lparr>m_size := length xs - 1\<rparr>,
     w\<lparr>heap := with_block (m_data v) (Some (layout (butlast xs) (m_capacity v))) (heap w),
       trace := t\<rparr>)"
proof -
  from assms obtain a where a: "m_data v = Some a" "a < length (heap w)"
    "heap w ! a = Some (layout xs (m_capacity v))"
    by (rule holds_data)
  from assms have sz: "m_size v = length xs" and cap: "length xs \<le> m_capacity v"
    and pos: "0 < length xs"
    by (auto simp: holds_def)
  have "destroy_at (Some a) (length xs - 1) w =
    (Inr (), w\<lparr>heap := (heap w)[a := Some ((layout xs (m_capacity v))[length xs - 1 := None])],
                trace := trace w @ [Destroy a (length xs - 1) (xs ! (length xs - 1))]\<rparr>)"
    using a(2,3) by (rule destroy_at_ok) (use pos cap in \<open>auto simp del: length_greater_0_conv\<close>)
  then have "destroy_at (m_data v) (m_size v - 1) w =
    (Inr (), w\<lparr>heap := (heap w)[a := Some (layout (butlast xs) (m_capacity v))],
                trace := trace w @ [Destroy a (length xs - 1) (xs ! (length xs - 1))]\<rparr>)"
    using layout_butlast [OF assms(2) cap] by (simp only: a sz)
  with assms(2) a sz have "pop_back v w =
    (Inr (), v\<lparr>m_size := length xs - 1\<rparr>,
     w\<lparr>heap := with_block (m_data v) (Some (layout (butlast xs) (m_capacity v))) (heap w),
       trace := trace w @ [Destroy a (length xs - 1) (xs ! (length xs - 1))]\<rparr>)"
    by (simp add: pop_back_def)
  then show ?thesis by blast
qed

lemma holds_butlast:
  assumes "holds w v xs" and "xs \<noteq> []"
  shows "holds (w\<lparr>heap := with_block (m_data v) (Some (layout (butlast xs) (m_capacity v))) (heap w),
                  trace := t\<rparr>) (v\<lparr>m_size := length xs - 1\<rparr>) (butlast xs)"
  using assms by (cases "m_data v") (auto simp: holds_def)

lemma holds_block_id:
  assumes "holds w v xs"
  shows "with_block (m_data v) (Some (layout xs (m_capacity v))) (heap w) = heap w"
  using assms by (cases "m_data v") (auto simp: holds_def list_update_same_conv)

lemma pop_back_times_holds:
  assumes "holds w v xs" and "k \<le> length xs"
  shows "\<exists>t. pop_back_times k v w =
    (Inr (), v\<lparr>m_size := length xs - k\<rparr>,
     w\<lparr>heap := with_block (m_data v)
                 (Some (layout (take (length xs - k) xs) (m_capacity v))) (heap w),
       trace := t\<rparr>)"
  using assms
proof (induction k arbitrary: w v xs)
  case 0
  then have "m_size v = length xs" by (simp add: holds_def)
  with holds_block_id [OF 0(1)]
  have "pop_back_times 0 v w = (Inr (), v\<lparr>m_size := length xs - 0\<rparr>,
     w\<lparr>heap := with_block (m_data v)
                 (Some (layout (take (length xs - 0) xs) (m_capacity v))) (heap w),
       trace := trace w\<rparr>)"
    by simp
  then show ?case by blast
next
  case (Suc k)
  then have ne: "xs \<noteq> []" by auto
  let ?v1 = "v\<lparr>m_size := length xs - 1\<rparr>"
  from pop_back_holds [OF Suc.prems(1) ne] obtain t where
    p: "pop_back v w = (Inr (), ?v1,
       w\<lparr>heap := with_block (m_data v) (Some (layout (butlast xs) (m_capacity v))) (heap w),
         trace := t\<rparr>)"
    by auto
  let ?w1 = "w\<lparr>heap := with_block (m_data v) (Some (layout (butlast xs) (m_capacity v))) (heap w),
               trace := t\<rparr>"
  have h1: "holds ?w1 ?v1 (butlast xs)"
    using Suc.prems(1) ne by (rule holds_butlast)
  from Suc.prems have k: "k \<le> length (butlast xs)" by simp
  from Suc.IH [OF h1 k] obtain t' where
    "pop_back_times k ?v1 ?w1 = (Inr (), ?v1\<lparr>m_size := length (butlast xs) - k\<rparr>,
       ?w1\<lparr>heap := with_block (m_data ?v1)
           (Some (layout (take (length (butlast xs) - k) (butlast xs)) (m_capacity ?v1)))
           (heap ?w1),
         trace := t'\<rparr>)"
    by auto
  moreover have "take (length xs - Suc k) (butlast xs) = take (length xs - Suc k) xs"
    using ne by (simp add: take_butlast)
  ultimately have "pop_back_times (Suc k) v w = (Inr (), v\<lparr>m_size := length xs - Suc k\<rparr>,
     w\<lparr>heap := with_block (m_data v)
                 (Some (layout (take (length xs - Suc k) xs) (m_capacity v))) (heap w),
       trace := t'\<rparr>)"
    by (cases "m_data v") (simp_all add: p)
  then show ?case by blast
qed

lemma vector_destroy_holds:
  assumes "holds w v xs"
  shows "\<exists>t. vector_destroy v w =
    (Inr (), w\<lparr>heap := with_block (m_data v) None (heap w), trace := t\<rparr>)"
proof -
  from assms have sz: "m_size v = length xs" by (simp add: holds_def)
  from pop_back_times_holds [OF assms order_refl] obtain t where
    p: "pop_back_times (length xs) v w = (Inr (), v\<lparr>m_size := 0\<rparr>,
     w\<lparr>heap := with_block (m_data v) (Some (layout [] (m_capacity v))) (heap w),
       trace := t\<rparr>)"
    by auto
  show ?thesis
  proof (cases "m_data v")
    case None
    with p sz have "vector_destroy v w = (Inr (), w\<lparr>heap := heap w, trace := t\<rparr>)"
      by (simp add: vector_destroy_def clear_def operator_delete_def)
    with None show ?thesis by auto
  next
    case (Some a)
    with p sz have "vector_destroy v w =
      (Inr (), w\<lparr>heap := (heap w)[a := None], trace := t @ [Deallocate a]\<rparr>)"
      by (simp add: vector_destroy_def clear_def operator_delete_def log_def)
    with Some show ?thesis by auto
  qed
qed

lemma swap_in_holds:
  assumes "holds w v xs"
  shows "\<exists>t. swap_in tmp v w =
    (Inr (), tmp, w\<lparr>heap := with_block (m_data v) None (heap w), trace := t\<rparr>)"
  using vector_destroy_holds [OF assms]
  by (auto simp: swap_in_def swap_def)

lemma unwind_holds:
  assumes "holds w tmp ys" and "e \<noteq> Undefined"
  shows "\<exists>t. unwind e tmp v w =
    (Inl e, v, w\<lparr>heap := with_block (m_data tmp) None (heap w), trace := t\<rparr>)"
  using vector_destroy_holds [OF assms(1)] assms(2)
  by (auto simp: unwind_def)

section \<open>Appending\<close>

lemma world_eqI:
  fixes w1 w2 :: "'a world"
  assumes "heap w1 = heap w2" and "faults w1 = faults w2" and "trace w1 = trace w2"
  shows "w1 = w2"
  using assms by (intro world.equality) simp_all

lemma throws_at_add: "throws_at (j + k) fs \<longleftrightarrow> passes j fs \<and> throws_at k (drop j fs)"
proof (induction j arbitrary: fs)
  case 0
  show ?case by simp
next
  case (Suc j)
  show ?case
    using Suc [of "tl fs"] by (cases fs) (auto simp: throws_at_Suc passes_Suc throws_at_def)
qed

lemma holds_capacity_data:
  assumes "holds w v xs" and "0 < m_capacity v"
  obtains a where "m_data v = Some a" and "a < length (heap w)"
    and "heap w ! a = Some (layout xs (m_capacity v))"
  using assms by (cases "m_data v") (auto simp: holds_def)

lemma push_back_spare_ok:
  assumes "holds w v xs" and "length xs < m_capacity v" and "passes (Suc k) (faults w)"
  shows "push_back x v w =
    (Inr (), v\<lparr>m_size := length xs + 1\<rparr>,
     w\<lparr>heap := with_block (m_data v) (Some (layout (xs @ [x]) (m_capacity v))) (heap w),
       faults := tl (faults w),
       trace := trace w @ [Move_Construct (the (m_data v)) (length xs) x]\<rparr>)"
proof -
  from assms obtain a where a: "m_data v = Some a" "a < length (heap w)"
    "heap w ! a = Some (layout xs (m_capacity v))"
    by (auto elim: holds_capacity_data)
  from assms have sz: "m_size v = length xs" by (simp add: holds_def)
  have "construct_at Move_Construct (Some a) (length xs) x w =
    (Inr (), w\<lparr>heap := (heap w)[a := Some ((layout xs (m_capacity v))[length xs := Some x])],
                faults := tl (faults w),
                trace := trace w @ [Move_Construct a (length xs) x]\<rparr>)"
    using a(2,3) _ assms(3) by (rule construct_at_ok) (use assms(2) in auto)
  with assms(2) a sz show ?thesis
    by (subst push_back.simps) (simp add: layout_snoc)
qed

lemma push_back_spare_throws:
  assumes "holds w v xs" and "length xs < m_capacity v" and "throws_at 0 (faults w)"
  shows "push_back x v w = (Inl Element_Threw, v, w\<lparr>faults := tl (faults w)\<rparr>)"
proof -
  from assms obtain a where a: "m_data v = Some a" "a < length (heap w)"
    "heap w ! a = Some (layout xs (m_capacity v))"
    by (auto elim: holds_capacity_data)
  from assms have sz: "m_size v = length xs" by (simp add: holds_def)
  have "construct_at Move_Construct (Some a) (length xs) x w =
    (Inl Element_Threw, w\<lparr>faults := tl (faults w)\<rparr>)"
    using a(2,3) _ assms(3) by (rule construct_at_throws) (use assms(2) in auto)
  with assms(2) a sz show ?thesis
    by (subst push_back.simps) simp
qed

lemma holds_snoc:
  assumes "holds w v xs" and "length xs < m_capacity v"
  shows "holds (w\<lparr>heap := with_block (m_data v) (Some (layout (xs @ [x]) (m_capacity v))) (heap w),
                  faults := fs, trace := t\<rparr>) (v\<lparr>m_size := length xs + 1\<rparr>) (xs @ [x])"
  using assms by (cases "m_data v") (auto simp: holds_def)

lemma pass_by_value_ok:
  "passes (Suc k) (faults w) \<Longrightarrow> pass_by_value x w = (Inr x, w\<lparr>faults := tl (faults w)\<rparr>)"
  by (simp add: pass_by_value_def fault_point_passes)

lemma pass_by_value_throws:
  "throws_at 0 (faults w) \<Longrightarrow> pass_by_value x w = (Inl Element_Threw, w\<lparr>faults := tl (faults w)\<rparr>)"
  by (simp add: pass_by_value_def fault_point_throws)

text \<open>The state in which \<open>push_back\<close> has built its local vector \<open>tmp\<close>.\<close>

lemma push_back_grow_tmp:
  assumes "holds w v xs" and "length xs = m_capacity v"
    and "n = (if m_capacity v = 0 then 1 else m_capacity v * 2 + 1)"
    and "passes (Suc (length xs)) (faults w)"
  shows "\<exists>t. vector_with_capacity (Other v) n w =
      (Inr \<lparr>m_data = Some (length (heap w)), m_size = length xs, m_capacity = n\<rparr>,
       w\<lparr>heap := heap w @ [Some (layout xs n)], faults := drop (Suc (length xs)) (faults w),
         trace := t\<rparr>)"
    and "holds (w\<lparr>heap := heap w @ [Some (layout xs n)], faults := fs, trace := t\<rparr>)
           \<lparr>m_data = Some (length (heap w)), m_size = length xs, m_capacity = n\<rparr> xs"
    and "length xs < n"
proof -
  from assms(2,3) show n: "length xs < n" by auto
  then show "\<exists>t. vector_with_capacity (Other v) n w =
      (Inr \<lparr>m_data = Some (length (heap w)), m_size = length xs, m_capacity = n\<rparr>,
       w\<lparr>heap := heap w @ [Some (layout xs n)], faults := drop (Suc (length xs)) (faults w),
         trace := t\<rparr>)"
    using vector_with_capacity_ok [OF assms(1) _ _ assms(4), of n] by auto
  from n show "holds (w\<lparr>heap := heap w @ [Some (layout xs n)], faults := fs, trace := t\<rparr>)
           \<lparr>m_data = Some (length (heap w)), m_size = length xs, m_capacity = n\<rparr> xs"
    by (simp add: holds_def)
qed

lemma push_back_grow_ok:
  assumes "holds w v xs" and "length xs = m_capacity v"
    and "n = (if m_capacity v = 0 then 1 else m_capacity v * 2 + 1)"
    and "passes (length xs + 3) (faults w)"
  shows "\<exists>t. push_back x v w =
    (Inr (), \<lparr>m_data = Some (length (heap w)), m_size = length xs + 1, m_capacity = n\<rparr>,
     w\<lparr>heap := with_block (m_data v) None (heap w @ [Some (layout (xs @ [x]) n)]),
       faults := drop (length xs + 3) (faults w), trace := t\<rparr>)"
proof -
  let ?d = "length (heap w)"
  let ?tmp = "\<lparr>m_data = Some ?d, m_size = length xs, m_capacity = n\<rparr>"
  from assms(1,2) have sz: "\<not> m_size v < m_capacity v" by (simp add: holds_def)
  from assms(4) have p1: "passes (Suc (length xs)) (faults w)"
    and p2: "passes (Suc 0) (drop (Suc (length xs)) (faults w))"
    and p3: "passes (Suc 0) (tl (drop (Suc (length xs)) (faults w)))"
    using passes_add [of "Suc (length xs)" 2 "faults w"]
    by (auto simp: passes_Suc numeral_2_eq_2 numeral_3_eq_3)
  from push_back_grow_tmp(1) [OF assms(1-3) p1] obtain t1 where
    tmp: "vector_with_capacity (Other v) n w =
      (Inr ?tmp, w\<lparr>heap := heap w @ [Some (layout xs n)],
                  faults := drop (Suc (length xs)) (faults w), trace := t1\<rparr>)"
    by blast
  let ?w1 = "w\<lparr>heap := heap w @ [Some (layout xs n)],
               faults := drop (Suc (length xs)) (faults w), trace := t1\<rparr>"
  let ?w2 = "?w1\<lparr>faults := tl (faults ?w1)\<rparr>"
  have pv: "pass_by_value x ?w1 = (Inr x, ?w2)"
    by (rule pass_by_value_ok [where k = 0]) (use p2 in simp)
  have n: "length xs < m_capacity ?tmp"
    using push_back_grow_tmp(3) [OF assms(1-3) p1] by simp
  then have h2: "holds ?w2 ?tmp xs"
    by (simp add: holds_def)
  have p3': "passes (Suc 0) (faults ?w2)"
    using p3 by simp
  let ?w3 = "?w2\<lparr>heap := with_block (m_data ?tmp) (Some (layout (xs @ [x]) (m_capacity ?tmp))) (heap ?w2),
       faults := tl (faults ?w2),
       trace := trace ?w2 @ [Move_Construct (the (m_data ?tmp)) (length xs) x]\<rparr>"
  have inner: "push_back x ?tmp ?w2 = (Inr (), ?tmp\<lparr>m_size := length xs + 1\<rparr>, ?w3)"
    using h2 n p3' by (rule push_back_spare_ok)
  have h3: "holds ?w3 v xs"
    using assms(1) by (rule holds_frame) (auto simp: nth_append dest: holds_data_bound [OF assms(1)])
  from swap_in_holds [OF h3, of "?tmp\<lparr>m_size := length xs + 1\<rparr>"] obtain t where
    sw: "swap_in (?tmp\<lparr>m_size := length xs + 1\<rparr>) v ?w3 =
      (Inr (), ?tmp\<lparr>m_size := length xs + 1\<rparr>,
       ?w3\<lparr>heap := with_block (m_data v) None (heap ?w3), trace := t\<rparr>)"
    by blast
  have d: "tl (tl (drop (Suc (length xs)) (faults w))) = drop (length xs + 3) (faults w)"
    by (simp add: drop_Suc numeral_3_eq_3 tl_drop)
  have "push_back x v w = (Inr (), ?tmp\<lparr>m_size := length xs + 1\<rparr>,
       ?w3\<lparr>heap := with_block (m_data v) None (heap ?w3), trace := t\<rparr>)"
    using sz by (subst push_back.simps)
      (simp add: assms(3) [symmetric] tmp pv [simplified] inner [simplified] sw [simplified])
  moreover have "?w3\<lparr>heap := with_block (m_data v) None (heap ?w3), trace := t\<rparr> =
      w\<lparr>heap := with_block (m_data v) None (heap w @ [Some (layout (xs @ [x]) n)]),
        faults := drop (length xs + 3) (faults w), trace := t\<rparr>"
    by (rule world_eqI) (simp_all add: d)
  ultimately have "push_back x v w =
    (Inr (), \<lparr>m_data = Some (length (heap w)), m_size = length xs + 1, m_capacity = n\<rparr>,
     w\<lparr>heap := with_block (m_data v) None (heap w @ [Some (layout (xs @ [x]) n)]),
       faults := drop (length xs + 3) (faults w), trace := t\<rparr>)"
    by (simp only: vec.simps)
  then show ?thesis ..
qed


lemma push_back_grow_throws:
  assumes "holds w v xs" and "length xs = m_capacity v"
    and "k < length xs + 3" and "throws_at k (faults w)"
  shows "\<exists>e w'. push_back x v w = (Inl e, v, w') \<and> (e = Bad_Alloc \<or> e = Element_Threw) \<and>
            (heap w' = heap w \<or> heap w' = heap w @ [None])"
proof -
  define n where "n = (if m_capacity v = 0 then 1 else m_capacity v * 2 + 1)"
  then have n: "n = (if m_capacity v = 0 then 1 else m_capacity v * 2 + 1)" .
  from assms(2) n have pos: "0 < n" and le: "length xs \<le> n" by auto
  let ?d = "length (heap w)"
  let ?tmp = "\<lparr>m_data = Some ?d, m_size = length xs, m_capacity = n\<rparr>"
  from assms(1,2) have sz: "\<not> m_size v < m_capacity v" by (simp add: holds_def)
  consider "k = 0" | j where "k = Suc j" "j < length xs"
    | "k = Suc (length xs) + 0" | "k = Suc (length xs) + 1"
    using assms(3) by (cases k) (auto simp: numeral_3_eq_3 less_Suc_eq)
  then show ?thesis
  proof cases
    case 1
    with assms(4) pos have "vector_with_capacity (Other v) n w =
        (Inl Bad_Alloc, w\<lparr>faults := tl (faults w)\<rparr>)"
      by (simp add: vector_with_capacity_bad_alloc)
    with sz have "push_back x v w = (Inl Bad_Alloc, v, w\<lparr>faults := tl (faults w)\<rparr>)"
      by (subst push_back.simps) (simp add: n [symmetric])
    then show ?thesis by simp
  next
    case 2
    from vector_with_capacity_throws [OF assms(1) le pos assms(4) [unfolded 2(1)] 2(2)]
    obtain w1 where "vector_with_capacity (Other v) n w = (Inl Element_Threw, w1)"
      and "heap w1 = heap w @ [None]"
      by simp
    with sz have "push_back x v w = (Inl Element_Threw, v, w1)"
      by (subst push_back.simps) (simp add: n [symmetric])
    with \<open>heap w1 = heap w @ [None]\<close> show ?thesis by simp
  next
    case 3
    with assms(4) have p1: "passes (Suc (length xs)) (faults w)"
      and t: "throws_at 0 (drop (Suc (length xs)) (faults w))"
      by (simp_all only: throws_at_add)
    from push_back_grow_tmp(1) [OF assms(1,2) n p1] obtain t1 where
      tmp: "vector_with_capacity (Other v) n w =
        (Inr ?tmp, w\<lparr>heap := heap w @ [Some (layout xs n)],
                    faults := drop (Suc (length xs)) (faults w), trace := t1\<rparr>)"
      by blast
    let ?w1 = "w\<lparr>heap := heap w @ [Some (layout xs n)],
                 faults := drop (Suc (length xs)) (faults w), trace := t1\<rparr>"
    let ?w2 = "?w1\<lparr>faults := tl (faults ?w1)\<rparr>"
    have pv: "pass_by_value x ?w1 = (Inl Element_Threw, ?w2)"
      by (rule pass_by_value_throws) (use t in simp)
    have "length xs < n"
      using push_back_grow_tmp(3) [OF assms(1,2) n p1] .
    then have h2: "holds ?w2 ?tmp xs"
      by (simp add: holds_def)
    from unwind_holds [OF h2, of Element_Threw v] obtain t2 where
      un: "unwind Element_Threw ?tmp v ?w2 =
        (Inl Element_Threw, v, ?w2\<lparr>heap := with_block (m_data ?tmp) None (heap ?w2), trace := t2\<rparr>)"
      by auto
    have "push_back x v w =
        (Inl Element_Threw, v, ?w2\<lparr>heap := with_block (m_data ?tmp) None (heap ?w2), trace := t2\<rparr>)"
      using sz by (subst push_back.simps)
        (simp add: n [symmetric] tmp pv [simplified] un [simplified])
    then show ?thesis by simp
  next
    case 4
    with assms(4) have p1: "passes (Suc (length xs)) (faults w)"
      and t: "throws_at (Suc 0) (drop (Suc (length xs)) (faults w))"
      by (simp_all only: throws_at_add One_nat_def)
    then have p2: "passes (Suc 0) (drop (Suc (length xs)) (faults w))"
      and t3: "throws_at 0 (tl (drop (Suc (length xs)) (faults w)))"
      by (auto simp: throws_at_Suc passes_Suc)
    from push_back_grow_tmp(1) [OF assms(1,2) n p1] obtain t1 where
      tmp: "vector_with_capacity (Other v) n w =
        (Inr ?tmp, w\<lparr>heap := heap w @ [Some (layout xs n)],
                    faults := drop (Suc (length xs)) (faults w), trace := t1\<rparr>)"
      by blast
    let ?w1 = "w\<lparr>heap := heap w @ [Some (layout xs n)],
                 faults := drop (Suc (length xs)) (faults w), trace := t1\<rparr>"
    let ?w2 = "?w1\<lparr>faults := tl (faults ?w1)\<rparr>"
    let ?w3 = "?w2\<lparr>faults := tl (faults ?w2)\<rparr>"
    have pv: "pass_by_value x ?w1 = (Inr x, ?w2)"
      by (rule pass_by_value_ok [where k = 0]) (use p2 in simp)
    have lt: "length xs < m_capacity ?tmp"
      using push_back_grow_tmp(3) [OF assms(1,2) n p1] by simp
    then have h2: "holds ?w2 ?tmp xs" and h3: "holds ?w3 ?tmp xs"
      by (simp_all add: holds_def)
    have inner: "push_back x ?tmp ?w2 = (Inl Element_Threw, ?tmp, ?w3)"
      using h2 lt by (rule push_back_spare_throws) (use t3 in simp)
    from unwind_holds [OF h3, of Element_Threw v] obtain t2 where
      un: "unwind Element_Threw ?tmp v ?w3 =
        (Inl Element_Threw, v, ?w3\<lparr>heap := with_block (m_data ?tmp) None (heap ?w3), trace := t2\<rparr>)"
      by auto
    have "push_back x v w =
        (Inl Element_Threw, v, ?w3\<lparr>heap := with_block (m_data ?tmp) None (heap ?w3), trace := t2\<rparr>)"
      using sz by (subst push_back.simps)
        (simp add: n [symmetric] tmp pv [simplified] inner [simplified] un [simplified])
    then show ?thesis by simp
  qed
qed

text \<open>The number of fault points of a \<open>push_back\<close> that runs to its end.\<close>

lemma push_back_ok:
  assumes "holds w v xs"
    and "passes (if m_size v < m_capacity v then 1 else m_size v + 3) (faults w)"
  shows "\<exists>v' w'. push_back x v w = (Inr (), v', w') \<and> holds w' v' (xs @ [x]) \<and>
     (if m_size v < m_capacity v then m_data v' = m_data v \<and> m_capacity v' = m_capacity v
      else m_data v' = Some (length (heap w)) \<and>
           m_capacity v' = (if m_capacity v = 0 then 1 else m_capacity v * 2 + 1)) \<and>
     length (heap w) \<le> length (heap w') \<and>
     (\<forall>a<length (heap w). Some a \<noteq> m_data v \<longrightarrow> heap w' ! a = heap w ! a)"
proof (cases "m_size v < m_capacity v")
  case True
  with assms have lt: "length xs < m_capacity v" and p: "passes (Suc 0) (faults w)"
    by (auto simp: holds_def)
  from push_back_spare_ok [OF assms(1) lt p] holds_snoc [OF assms(1) lt] True
  show ?thesis
    by (cases "m_data v") auto
next
  case False
  with assms have eq: "length xs = m_capacity v" and p: "passes (length xs + 3) (faults w)"
    by (auto simp: holds_def)
  define n where "n = (if m_capacity v = 0 then 1 else m_capacity v * 2 + 1)"
  then have n: "n = (if m_capacity v = 0 then 1 else m_capacity v * 2 + 1)" .
  with eq have lt: "length xs < n" by auto
  from push_back_grow_ok [OF assms(1) eq n p] obtain t where
    r: "push_back x v w =
      (Inr (), \<lparr>m_data = Some (length (heap w)), m_size = length xs + 1, m_capacity = n\<rparr>,
       w\<lparr>heap := with_block (m_data v) None (heap w @ [Some (layout (xs @ [x]) n)]),
         faults := drop (length xs + 3) (faults w), trace := t\<rparr>)"
    by blast
  have "holds (w\<lparr>heap := with_block (m_data v) None (heap w @ [Some (layout (xs @ [x]) n)]),
         faults := drop (length xs + 3) (faults w), trace := t\<rparr>)
       \<lparr>m_data = Some (length (heap w)), m_size = length xs + 1, m_capacity = n\<rparr> (xs @ [x])"
    using lt holds_data_bound [OF assms(1)]
    by (cases "m_data v") (auto simp: holds_def nth_append)
  with r False n show ?thesis
    by (cases "m_data v") (auto simp: nth_append)
qed

lemma push_back_fails:
  assumes "holds w v xs"
    and "\<not> passes (if m_size v < m_capacity v then 1 else m_size v + 3) (faults w)"
  shows "\<exists>e w'. push_back x v w = (Inl e, v, w') \<and> (e = Bad_Alloc \<or> e = Element_Threw) \<and>
            (heap w' = heap w \<or> heap w' = heap w @ [None])"
proof (cases "m_size v < m_capacity v")
  case True
  with assms have lt: "length xs < m_capacity v" and t: "throws_at 0 (faults w)"
    using passes_or_throws [of 1 "faults w"] by (auto simp: holds_def)
  from push_back_spare_throws [OF assms(1) lt t] show ?thesis by simp
next
  case False
  with assms have eq: "length xs = m_capacity v"
    and "\<not> passes (length xs + 3) (faults w)"
    by (auto simp: holds_def)
  with passes_or_throws [of "length xs + 3" "faults w"]
  obtain k where "k < length xs + 3" "throws_at k (faults w)" by blast
  with assms(1) eq show ?thesis by (rule push_back_grow_throws)
qed


lemma holds_at:
  assumes "holds w v xs" and "i < length xs"
  shows "at w v i = Inr (xs ! i)"
  using assms holds_live [OF assms] by (simp add: at_def holds_def)

lemma holds_block_of:
  assumes "holds w v xs" and "heap w' = heap w @ bs"
  shows "block_of w' (m_data v) = block_of w (m_data v)"
  using assms by (cases "m_data v") (auto simp: block_of_def holds_def nth_append)

lemma push_back_cases:
  assumes "holds w v xs" and "push_back x v w = (r, v', w')"
  shows "(r = Inr ()) = passes (if m_size v < m_capacity v then 1 else m_size v + 3) (faults w)"
    and "r = Inr () \<Longrightarrow> holds w' v' (xs @ [x])"
    and "r = Inr () \<Longrightarrow> m_size v < m_capacity v \<Longrightarrow>
           m_data v' = m_data v \<and> m_capacity v' = m_capacity v"
    and "r = Inr () \<Longrightarrow> \<not> m_size v < m_capacity v \<Longrightarrow>
           m_capacity v' = (if m_capacity v = 0 then 1 else m_capacity v * 2 + 1)"
    and "r \<noteq> Inr () \<Longrightarrow> (r = Inl Bad_Alloc \<or> r = Inl Element_Threw) \<and> v' = v \<and>
           holds w' v xs \<and> block_of w' (m_data v) = block_of w (m_data v)"
proof -
  let ?n = "if m_size v < m_capacity v then 1 else m_size v + 3"
  have *: "((r = Inr ()) = passes ?n (faults w)) \<and>
    (r = Inr () \<longrightarrow> holds w' v' (xs @ [x]) \<and>
       (m_size v < m_capacity v \<longrightarrow> m_data v' = m_data v \<and> m_capacity v' = m_capacity v) \<and>
       (\<not> m_size v < m_capacity v \<longrightarrow>
           m_capacity v' = (if m_capacity v = 0 then 1 else m_capacity v * 2 + 1))) \<and>
    (r \<noteq> Inr () \<longrightarrow> (r = Inl Bad_Alloc \<or> r = Inl Element_Threw) \<and> v' = v \<and>
           holds w' v xs \<and> block_of w' (m_data v) = block_of w (m_data v))"
  proof (cases "passes ?n (faults w)")
    case True
    from push_back_ok [OF assms(1) True, of x] assms(2) True show ?thesis
      by (auto split: if_splits)
  next
    case False
    from push_back_fails [OF assms(1) False, of x] assms(2)
    obtain e where e: "r = Inl e" "e = Bad_Alloc \<or> e = Element_Threw" "v' = v"
      and hp: "heap w' = heap w @ [] \<or> heap w' = heap w @ [None]"
      by auto
    from hp have "holds w' v xs \<and> block_of w' (m_data v) = block_of w (m_data v)"
      using holds_extend [OF assms(1)] holds_block_of [OF assms(1)] by blast
    with e False show ?thesis by auto
  qed
  from * show "(r = Inr ()) = passes ?n (faults w)" by blast
  from * show "r = Inr () \<Longrightarrow> holds w' v' (xs @ [x])" by blast
  from * show "r = Inr () \<Longrightarrow> m_size v < m_capacity v \<Longrightarrow>
           m_data v' = m_data v \<and> m_capacity v' = m_capacity v" by blast
  from * show "r = Inr () \<Longrightarrow> \<not> m_size v < m_capacity v \<Longrightarrow>
           m_capacity v' = (if m_capacity v = 0 then 1 else m_capacity v * 2 + 1)" by blast
  from * show "r \<noteq> Inr () \<Longrightarrow> (r = Inl Bad_Alloc \<or> r = Inl Element_Threw) \<and> v' = v \<and>
           holds w' v xs \<and> block_of w' (m_data v) = block_of w (m_data v)" by blast
qed

lemma holds_size: "holds w v xs \<Longrightarrow> m_size v = length xs"
  by (simp add: holds_def)

text \<open>
  Claim C1.  For a well-formed container holding \<open>xs\<close>, a call of \<open>push_back\<close> ends in one of
  two ways.  It returns normally, exactly when none of its fault points throws (one move
  construction with spare capacity; otherwise the allocation, one copy per element and two
  move constructions): then the container holds \<open>xs @ [x]\<close>, so its size grew by one, the
  new element is at the last index and the earlier elements kept their values.  Or it
  throws \<^verbatim>\<open>std::bad_alloc\<close> or the element's exception: then the members (data pointer,
  size, capacity) are the same, the block is the same and the container still holds \<open>xs\<close>.
  The same holds for the call whose argument is a reference to element \<open>j\<close> of the
  container itself; the appended value is then the value that element had before the call.
\<close>

theorem push_back_strong_guarantee:
  assumes "holds w v xs"
  shows "(push_back x v w = (r, v', w') \<longrightarrow>
       (r = Inr ()) = passes (if size v < capacity v then 1 else size v + 3) (faults w) \<and>
       (r = Inr () \<longrightarrow>
          size v' = size v + 1 \<and> holds w' v' (xs @ [x]) \<and> at w' v' (size v) = Inr x \<and>
          (\<forall>i<size v. at w' v' i = Inr (xs ! i))) \<and>
       (r \<noteq> Inr () \<longrightarrow>
          (r = Inl Bad_Alloc \<or> r = Inl Element_Threw) \<and> v' = v \<and> holds w' v xs \<and>
          block_of w' (data v) = block_of w (data v))) \<and>
     (j < size v \<and> push_back_lvalue (Element (data v) j) v w = (r, v', w') \<longrightarrow>
       (r = Inr () \<longrightarrow>
          size v' = size v + 1 \<and> holds w' v' (xs @ [xs ! j]) \<and>
          at w' v' (size v) = Inr (xs ! j) \<and> (\<forall>i<size v. at w' v' i = Inr (xs ! i))) \<and>
       (r \<noteq> Inr () \<longrightarrow>
          (r = Inl Bad_Alloc \<or> r = Inl Element_Threw) \<and> v' = v \<and> holds w' v xs \<and>
          block_of w' (data v) = block_of w (data v)))"
proof -
  note sz = holds_size [OF assms]
  have app: "size u = size v + 1 \<and> at w1 u (size v) = Inr y \<and>
      (\<forall>i<size v. at w1 u i = Inr (xs ! i))" if "holds w1 u (xs @ [y])" for w1 u y
    using holds_at [OF that] holds_size [OF that]
    by (auto simp: size_def sz nth_append)
  have a: "(r = Inr ()) = passes (if size v < capacity v then 1 else size v + 3) (faults w) \<and>
       (r = Inr () \<longrightarrow>
          size v' = size v + 1 \<and> holds w' v' (xs @ [x]) \<and> at w' v' (size v) = Inr x \<and>
          (\<forall>i<size v. at w' v' i = Inr (xs ! i))) \<and>
       (r \<noteq> Inr () \<longrightarrow>
          (r = Inl Bad_Alloc \<or> r = Inl Element_Threw) \<and> v' = v \<and> holds w' v xs \<and>
          block_of w' (data v) = block_of w (data v))"
    if "push_back x v w = (r, v', w')"
    using push_back_cases(1,2,5) [OF assms that] app [of w' v' x]
    by (auto simp: size_def capacity_def data_def)
  have b: "(r = Inr () \<longrightarrow>
          size v' = size v + 1 \<and> holds w' v' (xs @ [xs ! j]) \<and>
          at w' v' (size v) = Inr (xs ! j) \<and> (\<forall>i<size v. at w' v' i = Inr (xs ! i))) \<and>
       (r \<noteq> Inr () \<longrightarrow>
          (r = Inl Bad_Alloc \<or> r = Inl Element_Threw) \<and> v' = v \<and> holds w' v xs \<and>
          block_of w' (data v) = block_of w (data v))"
    if j: "j < size v" and call: "push_back_lvalue (Element (data v) j) v w = (r, v', w')"
  proof -
    from j have jl: "j < length xs" by (simp add: size_def sz)
    have d: "deref w (Element (data v) j) = Some (xs ! j)"
      using holds_live [OF assms jl] by (simp add: deref_def data_def)
    let ?w1 = "w\<lparr>faults := tl (faults w)\<rparr>"
    have h1: "holds ?w1 v xs"
      using assms by (rule holds_extend [where bs = "[]"]) simp
    have blk: "block_of ?w1 (m_data v) = block_of w (m_data v)"
      by (cases "m_data v") (simp_all add: block_of_def)
    show ?thesis
    proof (cases "passes (Suc 0) (faults w)")
      case True
      with call d have body: "push_back (xs ! j) v ?w1 = (r, v', w')"
        by (simp add: push_back_lvalue_def pass_by_value_ok)
      from push_back_cases(2,5) [OF h1 body] app [of w' v' "xs ! j"] blk show ?thesis
        by (auto simp: data_def)
    next
      case False
      with passes_or_throws [of "Suc 0" "faults w"] have "throws_at 0 (faults w)"
        by auto
      with call d have "r = Inl Element_Threw" "v' = v" "w' = ?w1"
        by (simp_all add: push_back_lvalue_def pass_by_value_throws)
      with h1 blk show ?thesis
        by (simp add: data_def)
    qed
  qed
  from a b show ?thesis by blast
qed

theorem push_back_strong_guarantee_witness:
  "holds \<lparr>heap = [Some [Some 5, Some 7]], faults = [], trace = []\<rparr>
         \<lparr>m_data = Some 0, m_size = 2, m_capacity = 2\<rparr> [5, 7 :: nat] \<and>
   (\<exists>v' w'. push_back_lvalue (Element (Some 0) 0) \<lparr>m_data = Some 0, m_size = 2, m_capacity = 2\<rparr>
       \<lparr>heap = [Some [Some 5, Some (7 :: nat)]], faults = [], trace = []\<rparr> = (Inr (), v', w') \<and>
     size v' = 3 \<and> holds w' v' [5, 7, 5] \<and> at w' v' 2 = Inr 5) \<and>
   (\<exists>w'. push_back 9 \<lparr>m_data = Some 0, m_size = 2, m_capacity = 2\<rparr>
       \<lparr>heap = [Some [Some 5, Some (7 :: nat)]], faults = [False, False, True], trace = []\<rparr> =
       (Inl Element_Threw, \<lparr>m_data = Some 0, m_size = 2, m_capacity = 2\<rparr>, w') \<and>
     holds w' \<lparr>m_data = Some 0, m_size = 2, m_capacity = 2\<rparr> [5, 7])"
proof -
  let ?v = "\<lparr>m_data = Some 0, m_size = 2, m_capacity = 2\<rparr>"
  let ?w = "\<lparr>heap = [Some [Some 5, Some 7]], faults = [], trace = []\<rparr> :: nat world"
  let ?wf = "\<lparr>heap = [Some [Some 5, Some 7]], faults = [False, False, True], trace = []\<rparr> :: nat world"
  have h: "holds ?w ?v [5, 7]" and hf: "holds ?wf ?v [5, 7]"
    by (simp_all add: holds_def layout_def)
  obtain r v' w' where c: "push_back_lvalue (Element (Some 0) 0) ?v ?w = (r, v', w')"
    by (metis prod_cases3)
  have "fst (push_back_lvalue (Element (Some 0) 0) ?v ?w) = Inr ()"
    by code_simp
  with c have r: "r = Inr ()" by simp
  from push_back_strong_guarantee [OF h, of 9 r v' w' 0] c r
  have 1: "size v' = 3 \<and> holds w' v' [5, 7, 5] \<and> at w' v' 2 = Inr 5"
    by (simp add: size_def data_def)
  obtain r2 v2 w2 where c2: "push_back 9 ?v ?wf = (r2, v2, w2)"
    by (metis prod_cases3)
  have "fst (push_back 9 ?v ?wf) = Inl Element_Threw"
    by code_simp
  with c2 have r2: "r2 = Inl Element_Threw" by simp
  from push_back_strong_guarantee [OF hf, of 9 r2 v2 w2 0] c2 r2
  have 2: "v2 = ?v \<and> holds w2 ?v [5, 7]"
    by simp
  from h c r 1 c2 r2 2 show ?thesis
    by auto
qed

text \<open>
  Claim C2.  A \<open>push_back\<close> that finds \<open>size() == capacity()\<close> and returns normally leaves
  the capacity at \<open>max(1, 2 * old + 1)\<close>, which is \<open>2 * old + 1\<close>, and \<open>1\<close> when the old
  capacity was \<open>0\<close>; it returns normally whenever none of its fault points throws.
\<close>

theorem push_back_growth:
  assumes "holds w v xs" and "size v = capacity v"
  shows "(passes (size v + 3) (faults w) \<longrightarrow> (\<exists>v' w'. push_back x v w = (Inr (), v', w'))) \<and>
    (push_back x v w = (Inr (), v', w') \<longrightarrow>
       capacity v' = max 1 (2 * capacity v + 1) \<and> capacity v' = 2 * capacity v + 1 \<and>
       (capacity v = 0 \<longrightarrow> capacity v' = 1) \<and> size v' = size v + 1)"
proof -
  from assms(2) have ge: "\<not> m_size v < m_capacity v"
    by (simp add: size_def capacity_def)
  have "\<exists>v' w'. push_back x v w = (Inr (), v', w')" if "passes (size v + 3) (faults w)"
    using push_back_ok [OF assms(1), of x] that ge by (auto simp: size_def)
  moreover have "capacity v' = max 1 (2 * capacity v + 1) \<and> capacity v' = 2 * capacity v + 1 \<and>
       (capacity v = 0 \<longrightarrow> capacity v' = 1) \<and> size v' = size v + 1"
    if "push_back x v w = (Inr (), v', w')"
    using push_back_cases(4) [OF assms(1) that refl ge] push_back_cases(2) [OF assms(1) that refl]
      holds_size [OF assms(1)]
    by (auto simp: capacity_def size_def dest: holds_size)
  ultimately show ?thesis by blast
qed

theorem push_back_growth_witness:
  "holds \<lparr>heap = [Some [Some 5, Some 7, Some 9]], faults = [], trace = []\<rparr>
         \<lparr>m_data = Some 0, m_size = 3, m_capacity = 3\<rparr> [5, 7, 9 :: nat] \<and>
   size \<lparr>m_data = Some 0, m_size = 3, m_capacity = 3\<rparr> =
     capacity \<lparr>m_data = Some 0, m_size = 3, m_capacity = 3\<rparr> \<and>
   (\<exists>v' w'. push_back 11 \<lparr>m_data = Some 0, m_size = 3, m_capacity = 3\<rparr>
       \<lparr>heap = [Some [Some 5, Some 7, Some (9 :: nat)]], faults = [], trace = []\<rparr> =
       (Inr (), v', w') \<and> capacity v' = 7)"
proof -
  let ?v = "\<lparr>m_data = Some 0, m_size = 3, m_capacity = 3\<rparr>"
  let ?w = "\<lparr>heap = [Some [Some 5, Some 7, Some 9]], faults = [], trace = []\<rparr> :: nat world"
  have h: "holds ?w ?v [5, 7, 9]"
    by (simp add: holds_def layout_def)
  have e: "size ?v = capacity ?v"
    by (simp add: size_def capacity_def)
  have "passes (size ?v + 3) (faults ?w)"
    by simp
  with push_back_growth [OF h e, of 11] obtain v' w' where
    c: "push_back 11 ?v ?w = (Inr (), v', w')"
    by blast
  with push_back_growth [OF h e, of 11 v' w'] have "capacity v' = 7"
    by (simp add: capacity_def)
  with h e c show ?thesis by blast
qed

section \<open>Rebuilding a container: reserve, shrink_to_fit, copy assignment\<close>

lemma holds_fresh:
  assumes "holds w v xs" and "length ys \<le> n" and "0 < n"
    and "heap w' = with_block (m_data v) None (heap w @ [Some (layout ys n)])"
  shows "holds w' \<lparr>m_data = Some (length (heap w)), m_size = length ys, m_capacity = n\<rparr> ys"
  using assms(2-4) holds_data_bound [OF assms(1)]
  by (cases "m_data v") (auto simp: holds_def nth_append)

lemma holds_other:
  assumes "holds w src ys" and "m_data src \<noteq> m_data v \<or> m_data v = None"
    and "heap w' = with_block (m_data v) None (heap w @ bs)"
  shows "holds w' src ys"
  using assms(1)
proof (rule holds_frame)
  show "length (heap w) \<le> length (heap w')"
    using assms(3) by simp
  fix s assume s: "m_data src = Some s"
  with assms(1) have "s < length (heap w)" by (rule holds_data_bound)
  with s assms(2,3) show "heap w' ! s = heap w ! s"
    by (cases "m_data v") (auto simp: nth_append)
qed

lemma rebuild_cases:
  assumes "holds w v xs" and "holds w src ys" and "length ys \<le> n" and "0 < n"
    and "(case vector_with_capacity (Other src) n w of
            (Inl e, w1) \<Rightarrow> (Inl e, v, w1)
          | (Inr tmp, w1) \<Rightarrow> swap_in tmp v w1) = (r, v', w')"
  shows "(r = Inr ()) = passes (Suc (length ys)) (faults w)"
    and "r = Inr () \<Longrightarrow>
          v' = \<lparr>m_data = Some (length (heap w)), m_size = length ys, m_capacity = n\<rparr> \<and>
          heap w' = with_block (m_data v) None (heap w @ [Some (layout ys n)])"
    and "r \<noteq> Inr () \<Longrightarrow> (r = Inl Bad_Alloc \<or> r = Inl Element_Threw) \<and> v' = v \<and>
          (heap w' = heap w @ [] \<or> heap w' = heap w @ [None])"
proof -
  let ?tmp = "\<lparr>m_data = Some (length (heap w)), m_size = length ys, m_capacity = n\<rparr>"
  have *: "((r = Inr ()) = passes (Suc (length ys)) (faults w)) \<and>
    (r = Inr () \<longrightarrow> v' = ?tmp \<and>
          heap w' = with_block (m_data v) None (heap w @ [Some (layout ys n)])) \<and>
    (r \<noteq> Inr () \<longrightarrow> (r = Inl Bad_Alloc \<or> r = Inl Element_Threw) \<and> v' = v \<and>
          (heap w' = heap w @ [] \<or> heap w' = heap w @ [None]))"
  proof (cases "passes (Suc (length ys)) (faults w)")
    case True
    from vector_with_capacity_ok [OF assms(2-4) True] obtain w1 where
      c: "vector_with_capacity (Other src) n w = (Inr ?tmp, w1)"
      and h1: "heap w1 = heap w @ [Some (layout ys n)]"
      by simp
    have "holds w1 v xs"
      using assms(1) h1 by (rule holds_extend)
    from swap_in_holds [OF this, of ?tmp] obtain t where
      "swap_in ?tmp v w1 = (Inr (), ?tmp, w1\<lparr>heap := with_block (m_data v) None (heap w1), trace := t\<rparr>)"
      by blast
    with c assms(5) h1 True show ?thesis
      by auto
  next
    case False
    with passes_or_throws [of "Suc (length ys)" "faults w"]
    obtain k where k: "k < Suc (length ys)" "throws_at k (faults w)" by blast
    show ?thesis
    proof (cases k)
      case 0
      with k assms(4) have "vector_with_capacity (Other src) n w =
          (Inl Bad_Alloc, w\<lparr>faults := tl (faults w)\<rparr>)"
        by (simp add: vector_with_capacity_bad_alloc)
      with assms(5) False show ?thesis by auto
    next
      case (Suc j)
      with k have j: "j < length ys" and t: "throws_at (Suc j) (faults w)" by auto
      from vector_with_capacity_throws [OF assms(2-4) t j] obtain w1 where
        "vector_with_capacity (Other src) n w = (Inl Element_Threw, w1)"
        and "heap w1 = heap w @ [None]"
        by simp
      with assms(5) False show ?thesis by auto
    qed
  qed
  from * show "(r = Inr ()) = passes (Suc (length ys)) (faults w)" by blast
  from * show "r = Inr () \<Longrightarrow> v' = ?tmp \<and>
          heap w' = with_block (m_data v) None (heap w @ [Some (layout ys n)])" by blast
  from * show "r \<noteq> Inr () \<Longrightarrow> (r = Inl Bad_Alloc \<or> r = Inl Element_Threw) \<and> v' = v \<and>
          (heap w' = heap w @ [] \<or> heap w' = heap w @ [None])" by blast
qed




text \<open>
  Claim C5.  Let the left-hand side hold \<open>xs\<close> and the right-hand side, a different object
  with a block of its own, hold \<open>ys\<close>.  Copy assignment returns normally exactly when none
  of the fault points of the copy throws, and then the left-hand side holds \<open>ys\<close>, element
  by element equal to the right-hand side, which still holds \<open>ys\<close>.  When it throws, the
  members of the left-hand side are the same and it still holds \<open>xs\<close>.  Assigning a
  container to itself returns at once: the members and the whole world, trace and fault
  plan included, are untouched, so nothing was allocated.
\<close>

theorem copy_assignment_strong:
  assumes "holds w v xs" and "holds w ov ys" and "data ov \<noteq> data v \<or> data v = None"
  shows "assign_copy Self v w = (Inr (), v, w) \<and>
    (assign_copy (Other ov) v w = (r, v', w') \<longrightarrow>
       (r = Inr ()) = passes (if ys = [] then 0 else Suc (length ys)) (faults w) \<and>
       (r = Inr () \<longrightarrow>
          size v' = size ov \<and> holds w' v' ys \<and> holds w' ov ys \<and>
          (\<forall>i<size ov. at w' v' i = Inr (ys ! i) \<and> at w' ov i = Inr (ys ! i))) \<and>
       (r \<noteq> Inr () \<longrightarrow>
          (r = Inl Bad_Alloc \<or> r = Inl Element_Threw) \<and> v' = v \<and> holds w' v xs \<and>
          holds w' ov ys))"
proof -
  note szo = holds_size [OF assms(2)]
  from assms(3) have dis: "m_data ov \<noteq> m_data v \<or> m_data v = None"
    by (simp add: data_def)
  have self: "assign_copy Self v w = (Inr (), v, w)"
    by (simp add: assign_copy_def)
  have other: "(r = Inr ()) = passes (if ys = [] then 0 else Suc (length ys)) (faults w) \<and>
       (r = Inr () \<longrightarrow>
          size v' = size ov \<and> holds w' v' ys \<and> holds w' ov ys \<and>
          (\<forall>i<size ov. at w' v' i = Inr (ys ! i) \<and> at w' ov i = Inr (ys ! i))) \<and>
       (r \<noteq> Inr () \<longrightarrow>
          (r = Inl Bad_Alloc \<or> r = Inl Element_Threw) \<and> v' = v \<and> holds w' v xs \<and>
          holds w' ov ys)"
    if call: "assign_copy (Other ov) v w = (r, v', w')"
  proof (cases "ys = []")
    case True
    with szo have "vector_copy ov w = (Inr vector_default, w)"
      by (simp add: vector_copy_def vector_with_capacity_def)
    moreover from swap_in_holds [OF assms(1), of vector_default] obtain t where
      "swap_in vector_default v w =
        (Inr (), vector_default, w\<lparr>heap := with_block (m_data v) None (heap w), trace := t\<rparr>)"
      by blast
    ultimately have r: "r = Inr ()" and v': "v' = vector_default"
      and hp: "heap w' = with_block (m_data v) None (heap w @ [])"
      using call by (auto simp: assign_copy_def)
    have "holds w' ov ys"
      using assms(2) dis hp by (rule holds_other)
    moreover have "holds w' v' ys"
      using True v' by (simp add: holds_def vector_default_def)
    ultimately show ?thesis
      using r True v' szo by (simp add: size_def vector_default_def)
  next
    case False
    then have le: "length ys \<le> m_size ov" and pos: "0 < m_size ov"
      by (simp_all add: szo)
    from call have c: "(case vector_with_capacity (Other ov) (m_size ov) w of
            (Inl e, w1) \<Rightarrow> (Inl e, v, w1)
          | (Inr tmp, w1) \<Rightarrow> swap_in tmp v w1) = (r, v', w')"
      by (simp add: assign_copy_def vector_copy_def)
    note rc = rebuild_cases [OF assms(1,2) le pos c]
    have ok: "size v' = size ov \<and> holds w' v' ys \<and> holds w' ov ys \<and>
          (\<forall>i<size ov. at w' v' i = Inr (ys ! i) \<and> at w' ov i = Inr (ys ! i))" if r: "r = Inr ()"
    proof -
      from rc(2) [OF r]
      have v': "v' = \<lparr>m_data = Some (length (heap w)), m_size = length ys, m_capacity = m_size ov\<rparr>"
        and hp: "heap w' = with_block (m_data v) None (heap w @ [Some (layout ys (m_size ov))])"
        by auto
      from holds_fresh [OF assms(1) le pos hp] v' have h: "holds w' v' ys" by simp
      have ho: "holds w' ov ys"
        using assms(2) dis hp by (rule holds_other)
      from holds_at [OF h] holds_at [OF ho] v' h ho show ?thesis
        by (simp add: size_def szo)
    qed
    have bad: "(r = Inl Bad_Alloc \<or> r = Inl Element_Threw) \<and> v' = v \<and> holds w' v xs \<and>
          holds w' ov ys" if r: "r \<noteq> Inr ()"
      using rc(3) [OF r] holds_extend [OF assms(1)] holds_extend [OF assms(2)] by blast
    from rc(1) ok bad False show ?thesis by auto
  qed
  from self other show ?thesis by blast
qed

theorem copy_assignment_strong_witness:
  "holds \<lparr>heap = [Some [Some 1, None], Some [Some 5, Some 7]], faults = [False, False, True],
          trace = []\<rparr> \<lparr>m_data = Some 0, m_size = 1, m_capacity = 2\<rparr> [1 :: nat] \<and>
   holds \<lparr>heap = [Some [Some 1, None], Some [Some 5, Some 7]], faults = [False, False, True],
          trace = []\<rparr> \<lparr>m_data = Some 1, m_size = 2, m_capacity = 2\<rparr> [5, 7 :: nat] \<and>
   data \<lparr>m_data = Some 1, m_size = 2, m_capacity = 2\<rparr> \<noteq>
     data \<lparr>m_data = Some 0, m_size = 1, m_capacity = 2\<rparr> \<and>
   (\<exists>w'. assign_copy (Other \<lparr>m_data = Some 1, m_size = 2, m_capacity = 2\<rparr>)
       \<lparr>m_data = Some 0, m_size = 1, m_capacity = 2\<rparr>
       \<lparr>heap = [Some [Some 1, None], Some [Some 5, Some (7 :: nat)]],
         faults = [False, False, True], trace = []\<rparr> =
       (Inl Element_Threw, \<lparr>m_data = Some 0, m_size = 1, m_capacity = 2\<rparr>, w') \<and>
     holds w' \<lparr>m_data = Some 0, m_size = 1, m_capacity = 2\<rparr> [1]) \<and>
   (\<exists>v' w'. assign_copy (Other \<lparr>m_data = Some 1, m_size = 2, m_capacity = 2\<rparr>)
       \<lparr>m_data = Some 0, m_size = 1, m_capacity = 2\<rparr>
       \<lparr>heap = [Some [Some 1, None], Some [Some 5, Some (7 :: nat)]],
         faults = [], trace = []\<rparr> = (Inr (), v', w') \<and> holds w' v' [5, 7])"
proof -
  let ?v = "\<lparr>m_data = Some 0, m_size = 1, m_capacity = 2\<rparr>"
  let ?o = "\<lparr>m_data = Some 1, m_size = 2, m_capacity = 2\<rparr>"
  let ?wf = "\<lparr>heap = [Some [Some 1, None], Some [Some 5, Some 7]],
              faults = [False, False, True], trace = []\<rparr> :: nat world"
  let ?w = "\<lparr>heap = [Some [Some 1, None], Some [Some 5, Some 7]],
              faults = [], trace = []\<rparr> :: nat world"
  have hv: "holds ?wf ?v [1]" and ho: "holds ?wf ?o [5, 7]"
    and hv': "holds ?w ?v [1]" and ho': "holds ?w ?o [5, 7]"
    by (simp_all add: holds_def layout_def)
  have d: "data ?o \<noteq> data ?v \<or> data ?v = None"
    by (simp add: data_def)
  obtain r v' w' where c1: "assign_copy (Other ?o) ?v ?wf = (r, v', w')"
    by (metis prod_cases3)
  have np: "\<not> passes (Suc (length [5, 7 :: nat])) (faults ?wf)"
    by (simp add: passes_def)
  from copy_assignment_strong [OF hv ho d, of r v' w'] c1 np
  have 1: "r \<noteq> Inr () \<and> (r = Inl Bad_Alloc \<or> r = Inl Element_Threw) \<and> v' = ?v \<and> holds w' ?v [1]"
    by auto
  have "fst (assign_copy (Other ?o) ?v ?wf) = Inl Element_Threw"
    by code_simp
  with c1 have r: "r = Inl Element_Threw" by simp
  obtain r2 v2 w2 where c2: "assign_copy (Other ?o) ?v ?w = (r2, v2, w2)"
    by (metis prod_cases3)
  from copy_assignment_strong [OF hv' ho' d, of r2 v2 w2] c2
  have 2: "r2 = Inr () \<and> holds w2 v2 [5, 7]"
    by simp
  from hv ho d c1 1 r c2 2 show ?thesis
    by (auto simp: data_def)
qed

section \<open>Insertion and erasure\<close>

lemma world_heap_id [simp]: "w\<lparr>heap := heap w\<rparr> = w"
  by simp

lemma swap_at_layout:
  assumes "a < length (heap w)" and "heap w ! a = Some (layout zs cap)" and "length zs \<le> cap"
    and "i < length zs" and "j < length zs"
  shows "swap_at (Some a) i j w =
    (Inr (), w\<lparr>heap := (heap w)[a := Some (layout (zs[i := zs ! j, j := zs ! i]) cap)]\<rparr>)"
proof -
  have "swap_at (Some a) i j w =
    (Inr (), w\<lparr>heap := (heap w)[a := Some ((layout zs cap)[i := Some (zs ! j), j := Some (zs ! i)])]\<rparr>)"
    using assms(1,2) by (rule swap_at_ok) (use assms(3-5) in auto)
  moreover have "(layout zs cap)[i := Some (zs ! j), j := Some (zs ! i)] =
      layout (zs[i := zs ! j, j := zs ! i]) cap"
    using assms(4,5) by (simp add: layout_update)
  ultimately show ?thesis by simp
qed

lemma swap_adjacent:
  assumes "k < length xs"
  shows "(take (Suc k) xs @ x # drop (Suc k) xs)[Suc k := xs ! k, k := x] = take k xs @ x # drop k xs"
proof -
  have "take (Suc k) xs @ x # drop (Suc k) xs = take k xs @ [xs ! k, x] @ drop (Suc k) xs"
    using assms by (simp add: take_Suc_conv_app_nth)
  moreover have "length (take k xs) = k"
    using assms by simp
  ultimately have "(take (Suc k) xs @ x # drop (Suc k) xs)[Suc k := xs ! k, k := x] =
      take k xs @ [x, xs ! k] @ drop (Suc k) xs"
    by (simp add: list_update_append)
  also have "\<dots> = take k xs @ x # drop k xs"
    using assms by (simp add: Cons_nth_drop_Suc)
  finally show ?thesis .
qed

lemma shift_down_layout:
  assumes "a < length (heap w)"
    and "heap w ! a = Some (layout (take k xs @ x # drop k xs) cap)"
    and "length xs < cap" and "index \<le> k" and "k \<le> length xs"
  shows "shift_down (Some a) k index w =
    (Inr (), w\<lparr>heap := (heap w)[a := Some (layout (take index xs @ x # drop index xs) cap)]\<rparr>)"
  using assms
proof (induction k arbitrary: w)
  case 0
  then have "(heap w)[a := Some (layout (take index xs @ x # drop index xs) cap)] = heap w"
    by (simp add: list_update_same_conv)
  with 0 show ?case
    by (subst shift_down.simps) simp
next
  case (Suc k)
  show ?case
  proof (cases "Suc k = index")
    case True
    with Suc.prems have "(heap w)[a := Some (layout (take index xs @ x # drop index xs) cap)] = heap w"
      by (simp add: list_update_same_conv)
    with True show ?thesis
      by (subst shift_down.simps) simp
  next
    case False
    with Suc.prems have idx: "index \<le> k" and k: "k < length xs" by auto
    let ?zs = "take (Suc k) xs @ x # drop (Suc k) xs"
    have len: "length ?zs = Suc (length xs)"
      using k by simp
    have nk: "?zs ! k = xs ! k" and nsk: "?zs ! Suc k = x"
      using k by (simp_all add: nth_append)
    let ?w1 = "w\<lparr>heap := (heap w)[a := Some (layout (?zs[Suc k := ?zs ! k, k := ?zs ! Suc k]) cap)]\<rparr>"
    have sw: "swap_at (Some a) (Suc k) k w = (Inr (), ?w1)"
      using Suc.prems(1,2) by (rule swap_at_layout) (use Suc.prems(3) k len in auto)
    have zs1: "?zs[Suc k := ?zs ! k, k := ?zs ! Suc k] = take k xs @ x # drop k xs"
      unfolding nk nsk using k by (rule swap_adjacent)
    have "shift_down (Some a) k index ?w1 =
      (Inr (), ?w1\<lparr>heap := (heap ?w1)[a := Some (layout (take index xs @ x # drop index xs) cap)]\<rparr>)"
      using Suc.prems(1,3) idx k by (intro Suc.IH) (simp_all add: zs1)
    with False sw show ?thesis
      by (subst shift_down.simps) simp
  qed
qed

lemma swap_down_layout:
  assumes "a < length (heap w)" and "heap w ! a = Some (layout zs cap)"
    and "length zs = length xs" and "length xs \<le> cap"
    and "f \<le> l" and "l \<le> length xs" and "n = length xs - l" and "i \<le> n"
    and "take (f + i) zs = take f xs @ take i (drop l xs)"
    and "drop (l + i) zs = drop (l + i) xs"
  shows "\<exists>zs'. swap_down (Some a) l f i n w =
      (Inr (), w\<lparr>heap := (heap w)[a := Some (layout zs' cap)]\<rparr>) \<and>
      length zs' = length xs \<and> take (f + n) zs' = take f xs @ drop l xs"
  using assms
proof (induction "n - i" arbitrary: i zs w)
  case 0
  then have i: "i = n" by simp
  have "(heap w)[a := Some (layout zs cap)] = heap w"
    using 0 by (simp add: list_update_same_conv)
  then have "swap_down (Some a) l f i n w = (Inr (), w\<lparr>heap := (heap w)[a := Some (layout zs cap)]\<rparr>)"
    using i by (subst swap_down.simps) simp
  moreover from 0 i have "take (f + n) zs = take f xs @ drop l xs"
    by simp
  ultimately show ?case
    using 0 by blast
next
  case (Suc d)
  then have i: "i < n" and li: "l + i < length xs" and fi: "f + i < length xs" by auto
  let ?zs1 = "zs[l + i := zs ! (f + i), f + i := zs ! (l + i)]"
  let ?w1 = "w\<lparr>heap := (heap w)[a := Some (layout ?zs1 cap)]\<rparr>"
  have sw: "swap_at (Some a) (l + i) (f + i) w = (Inr (), ?w1)"
    using Suc.prems(1,2) by (rule swap_at_layout) (use Suc.prems li fi in auto)
  from Suc.prems(10) li have zli: "zs ! (l + i) = xs ! (l + i)"
    by (metis Suc.prems(3) hd_drop_conv_nth)
  have t1: "take (f + Suc i) ?zs1 = take f xs @ take (Suc i) (drop l xs)"
  proof -
    have "take (f + Suc i) ?zs1 = take (f + i) ?zs1 @ [?zs1 ! (f + i)]"
      using fi Suc.prems(3) by (simp add: take_Suc_conv_app_nth)
    also have "take (f + i) ?zs1 = take (f + i) zs"
      using Suc.prems(5) by simp
    also have "?zs1 ! (f + i) = xs ! (l + i)"
      using fi Suc.prems(3) zli by simp
    also have "take (f + i) zs @ [xs ! (l + i)] = take f xs @ take (Suc i) (drop l xs)"
      using Suc.prems(9) li by (simp add: take_Suc_conv_app_nth)
    finally show ?thesis .
  qed
  have d1: "drop (l + Suc i) ?zs1 = drop (l + Suc i) xs"
  proof -
    have "drop (l + Suc i) ?zs1 = drop (l + Suc i) zs"
      using Suc.prems(5) by simp
    also have "\<dots> = drop (Suc 0) (drop (l + i) zs)"
      by simp
    also have "\<dots> = drop (l + Suc i) xs"
      by (simp add: Suc.prems(10))
    finally show ?thesis .
  qed
  have "\<exists>zs'. swap_down (Some a) l f (Suc i) n ?w1 =
      (Inr (), ?w1\<lparr>heap := (heap ?w1)[a := Some (layout zs' cap)]\<rparr>) \<and>
      length zs' = length xs \<and> take (f + n) zs' = take f xs @ drop l xs"
    using Suc.hyps(2) Suc.prems(1,3,4,5,6,7) i t1 d1
    by (intro Suc.hyps(1) [of "Suc i" ?w1 ?zs1]) auto
  then obtain zs' where "swap_down (Some a) l f (Suc i) n ?w1 =
      (Inr (), w\<lparr>heap := (heap w)[a := Some (layout zs' cap)]\<rparr>)"
    and "length zs' = length xs" and "take (f + n) zs' = take f xs @ drop l xs"
    by auto
  with i sw show ?case
    by (subst swap_down.simps) auto
qed


lemma holds_take:
  assumes "holds w v zs" and "k \<le> length zs"
  shows "holds (w\<lparr>heap := with_block (m_data v) (Some (layout (take k zs) (m_capacity v))) (heap w),
                  trace := t\<rparr>) (v\<lparr>m_size := k\<rparr>) (take k zs)"
  using assms by (cases "m_data v") (auto simp: holds_def)

lemma erase_outcome:
  assumes "holds w v xs" and "f \<le> l" and "l \<le> length xs"
  shows "\<exists>w'. erase (m_data v, f) (m_data v, l) v w =
      (Inr (m_data v, f), v\<lparr>m_size := length xs - (l - f)\<rparr>, w') \<and>
      holds w' (v\<lparr>m_size := length xs - (l - f)\<rparr>) (take f xs @ drop l xs) \<and>
      faults w' = faults w"
proof -
  note sz = holds_size [OF assms(1)]
  from assms(1) have cap: "length xs \<le> m_capacity v" by (simp add: holds_def)
  have guard: "\<not> (fst (m_data v, f) \<noteq> fst (begin_it v) \<or> fst (m_data v, l) \<noteq> fst (begin_it v)
         \<or> snd (m_data v, l) < snd (m_data v, f) \<or> size v < snd (m_data v, l))"
    using assms(2,3) by (simp add: begin_it_def size_def sz)
  have "\<exists>zs' w1. swap_down (m_data v) l f 0 (length xs - l) w = (Inr (), w1) \<and>
      holds w1 v zs' \<and> faults w1 = faults w \<and> length zs' = length xs \<and>
      take (f + (length xs - l)) zs' = take f xs @ drop l xs"
  proof (cases "m_data v")
    case None
    with assms(1) have "xs = []" by (auto simp: holds_def)
    with None assms(1) show ?thesis
      by (subst swap_down.simps) auto
  next
    case (Some a)
    with assms(1) have a: "a < length (heap w)" "heap w ! a = Some (layout xs (m_capacity v))"
      and pos: "0 < m_capacity v"
      by (simp_all add: holds_def)
    from swap_down_layout [OF a refl cap assms(2,3) refl, of 0]
    obtain zs' where sd: "swap_down (Some a) l f 0 (length xs - l) w =
        (Inr (), w\<lparr>heap := (heap w)[a := Some (layout zs' (m_capacity v))]\<rparr>)"
      and len: "length zs' = length xs"
      and tk: "take (f + (length xs - l)) zs' = take f xs @ drop l xs"
      by auto
    have "holds (w\<lparr>heap := (heap w)[a := Some (layout zs' (m_capacity v))]\<rparr>) v zs'"
      using Some a(1) pos cap len sz by (simp add: holds_def)
    with sd len tk Some show ?thesis by auto
  qed
  then obtain zs' w1 where sd: "swap_down (m_data v) l f 0 (length xs - l) w = (Inr (), w1)"
    and h1: "holds w1 v zs'" and f1: "faults w1 = faults w" and len: "length zs' = length xs"
    and tk: "take (f + (length xs - l)) zs' = take f xs @ drop l xs"
    by blast
  from assms(2,3) len have k: "l - f \<le> length zs'" by simp
  from pop_back_times_holds [OF h1 k] obtain t where
    pb: "pop_back_times (l - f) v w1 = (Inr (), v\<lparr>m_size := length zs' - (l - f)\<rparr>,
      w1\<lparr>heap := with_block (m_data v)
            (Some (layout (take (length zs' - (l - f)) zs') (m_capacity v))) (heap w1),
         trace := t\<rparr>)"
    by blast
  from assms(2,3) have eq: "length xs - (l - f) = f + (length xs - l)" by simp
  let ?w' = "w1\<lparr>heap := with_block (m_data v)
            (Some (layout (take (length xs - (l - f)) zs') (m_capacity v))) (heap w1),
         trace := t\<rparr>"
  have "holds ?w' (v\<lparr>m_size := length xs - (l - f)\<rparr>) (take (length xs - (l - f)) zs')"
    using h1 by (rule holds_take) (simp add: len)
  then have h': "holds ?w' (v\<lparr>m_size := length xs - (l - f)\<rparr>) (take f xs @ drop l xs)"
    by (simp only: eq tk)
  have "erase (m_data v, f) (m_data v, l) v w =
      (Inr (m_data v, f), v\<lparr>m_size := length xs - (l - f)\<rparr>, ?w')"
    unfolding erase_def using guard sd pb
    by (simp add: size_def sz len begin_it_def)
  with h' f1 show ?thesis by auto
qed

lemma push_back_lvalue_cases:
  assumes "holds w v xs" and "deref w value = Some x"
    and "push_back_lvalue value v w = (r, v', w')"
  shows "(r = Inr ()) =
      passes (Suc (if m_size v < m_capacity v then 1 else m_size v + 3)) (faults w)"
    and "r = Inr () \<Longrightarrow> holds w' v' (xs @ [x])"
    and "r = Inr () \<Longrightarrow> m_size v < m_capacity v \<Longrightarrow>
           m_data v' = m_data v \<and> m_capacity v' = m_capacity v"
    and "r \<noteq> Inr () \<Longrightarrow> (r = Inl Bad_Alloc \<or> r = Inl Element_Threw) \<and> v' = v \<and>
           holds w' v xs \<and> block_of w' (m_data v) = block_of w (m_data v)"
proof -
  let ?n = "if m_size v < m_capacity v then 1 else m_size v + 3"
  let ?w1 = "w\<lparr>faults := tl (faults w)\<rparr>"
  have h1: "holds ?w1 v xs"
    using assms(1) by (rule holds_extend [where bs = "[]"]) simp
  have blk: "block_of ?w1 (m_data v) = block_of w (m_data v)"
    by (cases "m_data v") (simp_all add: block_of_def)
  have *: "((r = Inr ()) = passes (Suc ?n) (faults w)) \<and>
    (r = Inr () \<longrightarrow> holds w' v' (xs @ [x]) \<and>
       (m_size v < m_capacity v \<longrightarrow> m_data v' = m_data v \<and> m_capacity v' = m_capacity v)) \<and>
    (r \<noteq> Inr () \<longrightarrow> (r = Inl Bad_Alloc \<or> r = Inl Element_Threw) \<and> v' = v \<and>
           holds w' v xs \<and> block_of w' (m_data v) = block_of w (m_data v))"
  proof (cases "passes (Suc 0) (faults w)")
    case True
    with assms(2,3) have body: "push_back x v ?w1 = (r, v', w')"
      by (simp add: push_back_lvalue_def pass_by_value_ok)
    from True have "passes (Suc ?n) (faults w) = passes ?n (faults ?w1)"
      by (auto simp: passes_Suc)
    with push_back_cases [OF h1 body] blk show ?thesis
      by auto
  next
    case False
    with passes_or_throws [of "Suc 0" "faults w"] have t: "throws_at 0 (faults w)"
      by auto
    with assms(2,3) have "r = Inl Element_Threw" "v' = v" "w' = ?w1"
      by (simp_all add: push_back_lvalue_def pass_by_value_throws)
    moreover from t have "\<not> passes (Suc ?n) (faults w)"
      by (auto simp: passes_Suc throws_at_0)
    ultimately show ?thesis
      using h1 blk by simp
  qed
  from * show "(r = Inr ()) = passes (Suc ?n) (faults w)" by blast
  from * show "r = Inr () \<Longrightarrow> holds w' v' (xs @ [x])" by blast
  from * show "r = Inr () \<Longrightarrow> m_size v < m_capacity v \<Longrightarrow>
           m_data v' = m_data v \<and> m_capacity v' = m_capacity v" by blast
  from * show "r \<noteq> Inr () \<Longrightarrow> (r = Inl Bad_Alloc \<or> r = Inl Element_Threw) \<and> v' = v \<and>
           holds w' v xs \<and> block_of w' (m_data v) = block_of w (m_data v)" by blast
qed

lemma insert_outcome:
  assumes "holds w v xs" and "index \<le> length xs" and "deref w value = Some x"
    and "insert (m_data v, index) value v w = (r, v', w')"
  shows "(\<exists>it. r = Inr it) =
      passes (Suc (if m_size v < m_capacity v then 1 else m_size v + 3)) (faults w)"
    and "r = Inr it \<Longrightarrow> it = (m_data v', index) \<and>
           holds w' v' (take index xs @ x # drop index xs)"
    and "r = Inr it \<Longrightarrow> m_size v < m_capacity v \<Longrightarrow>
           m_data v' = m_data v \<and> m_capacity v' = m_capacity v"
    and "r = Inl e \<Longrightarrow> (e = Bad_Alloc \<or> e = Element_Threw) \<and> v' = v \<and> holds w' v xs"
proof -
  let ?n = "if m_size v < m_capacity v then 1 else m_size v + 3"
  obtain r1 v1 w1 where pb: "push_back_lvalue value v w = (r1, v1, w1)"
    by (metis prod_cases3)
  note pc = push_back_lvalue_cases [OF assms(1,3) pb]
  have *: "((\<exists>it. r = Inr it) = passes (Suc ?n) (faults w)) \<and>
    (\<forall>it. r = Inr it \<longrightarrow> it = (m_data v', index) \<and>
       holds w' v' (take index xs @ x # drop index xs) \<and>
       (m_size v < m_capacity v \<longrightarrow> m_data v' = m_data v \<and> m_capacity v' = m_capacity v)) \<and>
    (\<forall>e. r = Inl e \<longrightarrow> (e = Bad_Alloc \<or> e = Element_Threw) \<and> v' = v \<and> holds w' v xs)"
  proof (cases "r1 = Inr ()")
    case True
    from pc(2) [OF True] have h1: "holds w1 v1 (xs @ [x])" .
    then obtain a where a: "m_data v1 = Some a" "a < length (heap w1)"
      "heap w1 ! a = Some (layout (xs @ [x]) (m_capacity v1))"
      by (rule holds_data) simp
    from h1 have sz1: "m_size v1 = Suc (length xs)" and cap1: "length xs < m_capacity v1"
      by (auto simp: holds_def)
    have "shift_down (Some a) (length xs) index w1 =
      (Inr (), w1\<lparr>heap := (heap w1)[a := Some (layout (take index xs @ x # drop index xs)
                                                 (m_capacity v1))]\<rparr>)"
      using a(2) _ cap1 assms(2) order_refl by (rule shift_down_layout) (simp add: a(3))
    moreover have "holds (w1\<lparr>heap := (heap w1)[a := Some (layout (take index xs @ x # drop index xs)
                                                 (m_capacity v1))]\<rparr>) v1
         (take index xs @ x # drop index xs)"
      using a(1,2) sz1 cap1 assms(2) by (simp add: holds_def)
    ultimately have "r = Inr (m_data v1, index) \<and> v' = v1 \<and>
        holds w' v' (take index xs @ x # drop index xs)"
      using assms(4) pb True a(1) sz1
      by (auto simp: insert_def begin_it_def end_it_def data_def)
    with pc(1,3) True show ?thesis by auto
  next
    case False
    with pb assms(4) obtain e where "r1 = Inl e" "r = Inl e" "v' = v1" "w' = w1"
      by (cases r1) (auto simp: insert_def begin_it_def)
    with pc(1,4) False show ?thesis by auto
  qed
  from * show "(\<exists>it. r = Inr it) = passes (Suc ?n) (faults w)" by blast
  from * show "r = Inr it \<Longrightarrow> it = (m_data v', index) \<and>
           holds w' v' (take index xs @ x # drop index xs)" by blast
  from * show "r = Inr it \<Longrightarrow> m_size v < m_capacity v \<Longrightarrow>
           m_data v' = m_data v \<and> m_capacity v' = m_capacity v" by blast
  from * show "r = Inl e \<Longrightarrow> (e = Bad_Alloc \<or> e = Element_Threw) \<and> v' = v \<and> holds w' v xs"
    by blast
qed


lemma advance_begin [simp]: "advance (begin_it v) n = (m_data v, n)"
  by (simp add: advance_def begin_it_def)

lemma erase_one_outcome:
  assumes "holds w v xs" and "p < length xs"
  shows "\<exists>w'. erase_one (m_data v, p) v w =
      (Inr (m_data v, p), v\<lparr>m_size := length xs - 1\<rparr>, w') \<and>
      holds w' (v\<lparr>m_size := length xs - 1\<rparr>) (take p xs @ drop (Suc p) xs) \<and>
      faults w' = faults w"
  using erase_outcome [OF assms(1), of p "Suc p"] assms(2)
  by (simp add: erase_one_def advance_def)


text \<open>
  Claim C7.  Let the container hold \<open>xs\<close>.  An \<open>insert\<close> at \<open>begin() + index\<close> with
  \<open>index \<le> size()\<close> returns normally exactly when none of the fault points of its
  \<open>push_back\<close> throws; then the container holds \<open>take index xs @ x # drop index xs\<close>: the
  value is at \<open>index\<close>, the elements before it are in place and the elements from \<open>index\<close>
  on have moved up by one in their old order.  An \<open>erase\<close> of \<open>[begin() + f, begin() + l)\<close>
  with \<open>f \<le> l \<le> size()\<close> returns normally; the container then holds
  \<open>take f xs @ drop l xs\<close>: the size is smaller by \<open>l - f\<close>, the elements before \<open>f\<close> are
  in place and the elements from \<open>l\<close> on have moved down by \<open>l - f\<close> in their old order.
\<close>

theorem insert_erase_preserve_order:
  assumes "holds w v xs"
  shows "(index \<le> size v \<and> deref w value = Some x \<and>
          insert (advance (begin_it v) index) value v w = (r, v', w') \<longrightarrow>
       (\<exists>it. r = Inr it) =
         passes (Suc (if size v < capacity v then 1 else size v + 3)) (faults w) \<and>
       ((\<exists>it. r = Inr it) \<longrightarrow>
          holds w' v' (take index xs @ x # drop index xs) \<and> size v' = size v + 1 \<and>
          at w' v' index = Inr x \<and>
          (\<forall>i<index. at w' v' i = Inr (xs ! i)) \<and>
          (\<forall>i. index \<le> i \<and> i < size v \<longrightarrow> at w' v' (i + 1) = Inr (xs ! i)))) \<and>
     (f \<le> l \<and> l \<le> size v \<longrightarrow>
       (\<exists>it u w1. erase (advance (begin_it v) f) (advance (begin_it v) l) v w = (Inr it, u, w1) \<and>
          holds w1 u (take f xs @ drop l xs) \<and> size u = size v - (l - f) \<and>
          (\<forall>i<f. at w1 u i = Inr (xs ! i)) \<and>
          (\<forall>i. f \<le> i \<and> i < size u \<longrightarrow> at w1 u i = Inr (xs ! (i + (l - f))))))"
proof (rule conjI; rule impI)
  note sz = holds_size [OF assms]
  assume "index \<le> size v \<and> deref w value = Some x \<and>
          insert (advance (begin_it v) index) value v w = (r, v', w')"
  then have idx: "index \<le> size v" and d: "deref w value = Some x"
    and call: "insert (advance (begin_it v) index) value v w = (r, v', w')"
    by (rule conjunct1, rule conjunct2 [THEN conjunct1], rule conjunct2 [THEN conjunct2])
  from idx have il: "index \<le> length xs" by (simp add: size_def sz)
  from call have c: "insert (m_data v, index) value v w = (r, v', w')"
    by (simp only: advance_begin)
  note io = insert_outcome [OF assms il d c]
  let ?ys = "take index xs @ x # drop index xs"
  have len: "length ?ys = length xs + 1" using il by simp
  have ok: "holds w' v' ?ys \<and> size v' = size v + 1 \<and>
          at w' v' index = Inr x \<and>
          (\<forall>i<index. at w' v' i = Inr (xs ! i)) \<and>
          (\<forall>i. index \<le> i \<and> i < size v \<longrightarrow> at w' v' (i + 1) = Inr (xs ! i))"
    if "\<exists>it. r = Inr it"
  proof (intro conjI allI impI)
    from that obtain it where "r = Inr it" ..
    from io(2) [OF this] show h: "holds w' v' ?ys" by (rule conjunct2)
    show "size v' = size v + 1"
      using holds_size [OF h] len by (simp add: size_def sz)
    have "at w' v' index = Inr (?ys ! index)"
      using h by (rule holds_at) (use il len in simp)
    then show "at w' v' index = Inr x"
      using il by (simp add: nth_append)
    show "at w' v' i = Inr (xs ! i)" if "i < index" for i
    proof -
      have "at w' v' i = Inr (?ys ! i)"
        using h by (rule holds_at) (use that il in simp)
      then show ?thesis using that il by (simp add: nth_append)
    qed
    show "at w' v' (i + 1) = Inr (xs ! i)" if "index \<le> i \<and> i < size v" for i
    proof -
      from that have i: "i < length xs" and ge: "index \<le> i" by (simp_all add: size_def sz)
      have "at w' v' (i + 1) = Inr (?ys ! (i + 1))"
        using h by (rule holds_at) (use i il in simp)
      then show ?thesis using ge i il by (simp add: nth_append Suc_diff_le)
    qed
  qed
  have "(\<exists>it. r = Inr it) =
         passes (Suc (if size v < capacity v then 1 else size v + 3)) (faults w)"
    using io(1) by (simp only: size_def capacity_def)
  then show "(\<exists>it. r = Inr it) =
         passes (Suc (if size v < capacity v then 1 else size v + 3)) (faults w) \<and>
       ((\<exists>it. r = Inr it) \<longrightarrow>
          holds w' v' (take index xs @ x # drop index xs) \<and> size v' = size v + 1 \<and>
          at w' v' index = Inr x \<and>
          (\<forall>i<index. at w' v' i = Inr (xs ! i)) \<and>
          (\<forall>i. index \<le> i \<and> i < size v \<longrightarrow> at w' v' (i + 1) = Inr (xs ! i)))"
    by (rule conjI) (rule impI, erule ok)
next
  note sz = holds_size [OF assms]
  assume "f \<le> l \<and> l \<le> size v"
  then have fl: "f \<le> l" and ll: "l \<le> length xs"
    by (simp_all add: size_def sz)
  let ?ys = "take f xs @ drop l xs"
  let ?u = "v\<lparr>m_size := length xs - (l - f)\<rparr>"
  from erase_outcome [OF assms fl ll] obtain w1 where
    e: "erase (m_data v, f) (m_data v, l) v w = (Inr (m_data v, f), ?u, w1)"
    and h: "holds w1 ?u ?ys"
    by (elim exE conjE)
  have len: "length ?ys = length xs - (l - f)" using fl ll by simp
  have a1: "at w1 ?u i = Inr (xs ! i)" if "i < f" for i
  proof -
    have "at w1 ?u i = Inr (?ys ! i)"
      using h by (rule holds_at) (use that fl ll in simp)
    then show ?thesis using that fl ll by (simp add: nth_append)
  qed
  have a2: "at w1 ?u i = Inr (xs ! (i + (l - f)))" if "f \<le> i \<and> i < size ?u" for i
  proof -
    from that have i: "i < length xs - (l - f)" and ge: "f \<le> i" by (simp_all add: size_def)
    have "at w1 ?u i = Inr (?ys ! i)"
      using h by (rule holds_at) (use i len in simp)
    then show ?thesis using ge i fl ll by (simp add: nth_append add.commute)
  qed
  have su: "size ?u = size v - (l - f)"
    by (simp add: size_def sz)
  show "\<exists>it u w1. erase (advance (begin_it v) f) (advance (begin_it v) l) v w = (Inr it, u, w1) \<and>
          holds w1 u (take f xs @ drop l xs) \<and> size u = size v - (l - f) \<and>
          (\<forall>i<f. at w1 u i = Inr (xs ! i)) \<and>
          (\<forall>i. f \<le> i \<and> i < size u \<longrightarrow> at w1 u i = Inr (xs ! (i + (l - f))))"
    unfolding advance_begin
  proof (intro exI [of _ "(m_data v, f)"] exI [of _ ?u] exI [of _ w1] conjI allI impI)
    show "erase (m_data v, f) (m_data v, l) v w = (Inr (m_data v, f), ?u, w1)" by (rule e)
    show "holds w1 ?u ?ys" by (rule h)
    show "size ?u = size v - (l - f)" by (rule su)
    show "at w1 ?u i = Inr (xs ! i)" if "i < f" for i using that by (rule a1)
    show "at w1 ?u i = Inr (xs ! (i + (l - f)))" if "f \<le> i \<and> i < size ?u" for i
      using that by (rule a2)
  qed
qed


theorem insert_erase_preserve_order_witness:
  "holds \<lparr>heap = [Some [Some 5, Some 7, Some 9, None]], faults = [], trace = []\<rparr>
         \<lparr>m_data = Some 0, m_size = 3, m_capacity = 4\<rparr> [5, 7, 9 :: nat] \<and>
   (\<exists>it u w1. erase (advance (begin_it \<lparr>m_data = Some 0, m_size = 3, m_capacity = 4\<rparr>) 0)
        (advance (begin_it \<lparr>m_data = Some 0, m_size = 3, m_capacity = 4\<rparr>) 2)
        \<lparr>m_data = Some 0, m_size = 3, m_capacity = 4\<rparr>
        \<lparr>heap = [Some [Some 5, Some 7, Some (9 :: nat), None]], faults = [], trace = []\<rparr> =
        (Inr it, u, w1) \<and> holds w1 u [9] \<and> size u = 1) \<and>
   (\<exists>it v' w'. insert (advance (begin_it \<lparr>m_data = Some 0, m_size = 3, m_capacity = 4\<rparr>) 1)
        (Object 6) \<lparr>m_data = Some 0, m_size = 3, m_capacity = 4\<rparr>
        \<lparr>heap = [Some [Some 5, Some 7, Some (9 :: nat), None]], faults = [], trace = []\<rparr> =
        (Inr it, v', w') \<and> holds w' v' [5, 6, 7, 9])"
proof -
  let ?v = "\<lparr>m_data = Some 0, m_size = 3, m_capacity = 4\<rparr>"
  let ?w = "\<lparr>heap = [Some [Some 5, Some 7, Some 9, None]], faults = [], trace = []\<rparr> :: nat world"
  have h: "holds ?w ?v [5, 7, 9]"
    by (simp add: holds_def layout_def)
  obtain r v' w' where c: "insert (advance (begin_it ?v) 1) (Object 6) ?v ?w = (r, v', w')"
    by (rule prod_cases3)
  note th = insert_erase_preserve_order [OF h, of 1 "Object 6" 6 r v' w' 0 2]
  have "1 \<le> size ?v" and "deref ?w (Object 6) = Some 6"
    by (simp_all add: size_def deref_def)
  with c have pre: "1 \<le> size ?v \<and> deref ?w (Object 6) = Some 6 \<and>
      insert (advance (begin_it ?v) 1) (Object 6) ?v ?w = (r, v', w')"
    by (intro conjI)
  note ins = th [THEN conjunct1, THEN mp, OF pre]
  from ins [THEN conjunct1] have "\<exists>it. r = Inr it"
    by (simp add: size_def capacity_def)
  then obtain it' where r: "r = Inr it'" ..
  then have "\<exists>it. r = Inr it" ..
  from ins [THEN conjunct2, THEN mp, OF this, THEN conjunct1]
  have hi: "holds w' v' [5, 6, 7, 9]"
    by simp
  from c r have c': "insert (advance (begin_it ?v) 1) (Object 6) ?v ?w = (Inr it', v', w')"
    by simp
  have pre2: "(0 :: nat) \<le> 2 \<and> 2 \<le> size ?v"
    by (simp add: size_def)
  from th [THEN conjunct2, THEN mp, OF pre2] obtain it u w1
    where e: "erase (advance (begin_it ?v) 0) (advance (begin_it ?v) 2) ?v ?w = (Inr it, u, w1)"
      and h1: "holds w1 u (take 0 [5, 7, 9] @ drop 2 [5, 7, 9])"
      and s1: "size u = size ?v - (2 - 0)"
    by (elim exE conjE)
  from h1 have he: "holds w1 u [9]"
    by simp
  from s1 have su: "size u = 1"
    by (simp add: size_def)
  show ?thesis
  proof (intro conjI)
    show "holds ?w ?v [5, 7, 9]" by (rule h)
    show "\<exists>it u w1. erase (advance (begin_it ?v) 0) (advance (begin_it ?v) 2) ?v ?w =
        (Inr it, u, w1) \<and> holds w1 u [9] \<and> size u = 1"
      using e he su by (intro exI conjI)
    show "\<exists>it v' w'. insert (advance (begin_it ?v) 1) (Object 6) ?v ?w =
        (Inr it, v', w') \<and> holds w' v' [5, 6, 7, 9]"
      using c' hi by (intro exI conjI)
  qed
qed

text \<open>
  Claim C8.  Element swaps and destructors are not fault points (the precondition of the
  claim).  For a well-formed container and any fault plan, \<open>erase\<close> of a range
  \<open>[begin() + f, begin() + l)\<close> with \<open>f \<le> l \<le> size()\<close> and \<open>erase\<close> of a position
  \<open>begin() + p\<close> with \<open>p < size()\<close> return normally, consume no fault point, and leave the
  capacity and the data pointer as they were.
\<close>

theorem erase_never_fails:
  assumes "holds w v xs"
  shows "(f \<le> l \<and> l \<le> size v \<longrightarrow>
       (\<exists>it u w1. erase (advance (begin_it v) f) (advance (begin_it v) l) v w = (Inr it, u, w1) \<and>
          capacity u = capacity v \<and> data u = data v \<and> faults w1 = faults w)) \<and>
     (p < size v \<longrightarrow>
       (\<exists>it u w1. erase_one (advance (begin_it v) p) v w = (Inr it, u, w1) \<and>
          capacity u = capacity v \<and> data u = data v \<and> faults w1 = faults w))"
proof (rule conjI; rule impI)
  note sz = holds_size [OF assms]
  assume "f \<le> l \<and> l \<le> size v"
  then have fl: "f \<le> l" and ll: "l \<le> length xs"
    by (simp_all add: size_def sz)
  let ?u = "v\<lparr>m_size := length xs - (l - f)\<rparr>"
  from erase_outcome [OF assms fl ll] obtain w1 where
    e: "erase (m_data v, f) (m_data v, l) v w = (Inr (m_data v, f), ?u, w1)"
    and fw: "faults w1 = faults w"
    by (elim exE conjE)
  show "\<exists>it u w1. erase (advance (begin_it v) f) (advance (begin_it v) l) v w = (Inr it, u, w1) \<and>
          capacity u = capacity v \<and> data u = data v \<and> faults w1 = faults w"
    unfolding advance_begin
  proof (intro exI [of _ "(m_data v, f)"] exI [of _ ?u] exI [of _ w1] conjI)
    show "erase (m_data v, f) (m_data v, l) v w = (Inr (m_data v, f), ?u, w1)" by (rule e)
    show "capacity ?u = capacity v" by (simp add: capacity_def)
    show "data ?u = data v" by (simp add: data_def)
    show "faults w1 = faults w" by (rule fw)
  qed
next
  note sz = holds_size [OF assms]
  assume "p < size v"
  then have pl: "p < length xs"
    by (simp add: size_def sz)
  let ?u = "v\<lparr>m_size := length xs - 1\<rparr>"
  from erase_one_outcome [OF assms pl] obtain w1 where
    e: "erase_one (m_data v, p) v w = (Inr (m_data v, p), ?u, w1)"
    and fw: "faults w1 = faults w"
    by (elim exE conjE)
  show "\<exists>it u w1. erase_one (advance (begin_it v) p) v w = (Inr it, u, w1) \<and>
          capacity u = capacity v \<and> data u = data v \<and> faults w1 = faults w"
    unfolding advance_begin
  proof (intro exI [of _ "(m_data v, p)"] exI [of _ ?u] exI [of _ w1] conjI)
    show "erase_one (m_data v, p) v w = (Inr (m_data v, p), ?u, w1)" by (rule e)
    show "capacity ?u = capacity v" by (simp add: capacity_def)
    show "data ?u = data v" by (simp add: data_def)
    show "faults w1 = faults w" by (rule fw)
  qed
qed

theorem erase_never_fails_witness:
  "holds \<lparr>heap = [Some [Some 5, Some 7, Some 9, None]], faults = [True, True], trace = []\<rparr>
         \<lparr>m_data = Some 0, m_size = 3, m_capacity = 4\<rparr> [5, 7, 9 :: nat] \<and>
   (\<exists>it u w1. erase_one (advance (begin_it \<lparr>m_data = Some 0, m_size = 3, m_capacity = 4\<rparr>) 1)
        \<lparr>m_data = Some 0, m_size = 3, m_capacity = 4\<rparr>
        \<lparr>heap = [Some [Some 5, Some 7, Some (9 :: nat), None]], faults = [True, True],
          trace = []\<rparr> = (Inr it, u, w1) \<and>
      capacity u = 4 \<and> data u = Some 0 \<and> faults w1 = [True, True]) \<and>
   (\<exists>it u w1. erase (advance (begin_it \<lparr>m_data = Some 0, m_size = 3, m_capacity = 4\<rparr>) 0)
        (advance (begin_it \<lparr>m_data = Some 0, m_size = 3, m_capacity = 4\<rparr>) 2)
        \<lparr>m_data = Some 0, m_size = 3, m_capacity = 4\<rparr>
        \<lparr>heap = [Some [Some 5, Some 7, Some (9 :: nat), None]], faults = [True, True],
          trace = []\<rparr> = (Inr it, u, w1) \<and>
      capacity u = 4 \<and> data u = Some 0 \<and> faults w1 = [True, True])"
proof -
  let ?v = "\<lparr>m_data = Some 0, m_size = 3, m_capacity = 4\<rparr>"
  let ?w = "\<lparr>heap = [Some [Some 5, Some 7, Some 9, None]], faults = [True, True],
              trace = []\<rparr> :: nat world"
  have h: "holds ?w ?v [5, 7, 9]"
    by (simp add: holds_def layout_def)
  have p: "1 < size ?v"
    by (simp add: size_def)
  from erase_never_fails [OF h, of 0 0 1, THEN conjunct2, THEN mp, OF p] obtain it u w1
    where e: "erase_one (advance (begin_it ?v) 1) ?v ?w = (Inr it, u, w1)"
      and c: "capacity u = capacity ?v" and d: "data u = data ?v" and f: "faults w1 = faults ?w"
    by (elim exE conjE)
  from c have c': "capacity u = 4" by (simp add: capacity_def)
  from d have d': "data u = Some 0" by (simp add: data_def)
  from f have f': "faults w1 = [True, True]" by simp
  have fl: "(0 :: nat) \<le> 2 \<and> 2 \<le> size ?v"
    by (simp add: size_def)
  from erase_never_fails [OF h, of 0 2 0, THEN conjunct1, THEN mp, OF fl] obtain it2 u2 w2
    where e2: "erase (advance (begin_it ?v) 0) (advance (begin_it ?v) 2) ?v ?w = (Inr it2, u2, w2)"
      and c2: "capacity u2 = capacity ?v" and d2: "data u2 = data ?v"
      and f2: "faults w2 = faults ?w"
    by (elim exE conjE)
  from c2 have c2': "capacity u2 = 4" by (simp add: capacity_def)
  from d2 have d2': "data u2 = Some 0" by (simp add: data_def)
  from f2 have f2': "faults w2 = [True, True]" by simp
  show ?thesis
  proof (intro conjI)
    show "holds ?w ?v [5, 7, 9]" by (rule h)
    show "\<exists>it u w1. erase_one (advance (begin_it ?v) 1) ?v ?w = (Inr it, u, w1) \<and>
      capacity u = 4 \<and> data u = Some 0 \<and> faults w1 = [True, True]"
      using e c' d' f' by (intro exI conjI)
    show "\<exists>it u w1. erase (advance (begin_it ?v) 0) (advance (begin_it ?v) 2) ?v ?w =
        (Inr it, u, w1) \<and>
      capacity u = 4 \<and> data u = Some 0 \<and> faults w1 = [True, True]"
      using e2 c2' d2' f2' by (intro exI conjI)
  qed
qed

text \<open>
  Claim C10.  Let the container hold \<open>xs\<close>.  When \<open>insert\<close> at \<open>begin() + index\<close> returns
  normally, its result is \<open>begin() + index\<close> for the \<open>begin()\<close> after the call, with the
  index taken before the call, and the inserted value is what it points at.  The result
  of \<open>erase\<close> of \<open>[begin() + f, begin() + l)\<close> is \<open>begin() + f\<close>; it points at the element
  that was at index \<open>l\<close> when one exists, and it is \<open>end()\<close> otherwise.  The same holds for
  \<open>erase\<close> of the single position \<open>begin() + p\<close>, with \<open>f = p\<close> and \<open>l = p + 1\<close>.
\<close>

theorem returned_iterators:
  assumes "holds w v xs"
  shows "(index \<le> size v \<and> deref w value = Some x \<and>
          insert (advance (begin_it v) index) value v w = (Inr it, v', w') \<longrightarrow>
       it = advance (begin_it v') index \<and> fst it = data v' \<and> at w' v' (snd it) = Inr x) \<and>
     (f \<le> l \<and> l \<le> size v \<longrightarrow>
       (\<exists>u w1. erase (advance (begin_it v) f) (advance (begin_it v) l) v w =
            (Inr (advance (begin_it u) f), u, w1) \<and>
          (l < size v \<longrightarrow> at w1 u f = Inr (xs ! l)) \<and>
          (l = size v \<longrightarrow> advance (begin_it u) f = end_it u))) \<and>
     (p < size v \<longrightarrow>
       (\<exists>u w1. erase_one (advance (begin_it v) p) v w =
            (Inr (advance (begin_it u) p), u, w1) \<and>
          (p + 1 < size v \<longrightarrow> at w1 u p = Inr (xs ! (p + 1))) \<and>
          (p + 1 = size v \<longrightarrow> advance (begin_it u) p = end_it u)))"
proof (intro conjI impI)
  note sz = holds_size [OF assms]
  assume "index \<le> size v \<and> deref w value = Some x \<and>
          insert (advance (begin_it v) index) value v w = (Inr it, v', w')"
  then have idx: "index \<le> size v" and d: "deref w value = Some x"
    and call: "insert (advance (begin_it v) index) value v w = (Inr it, v', w')"
    by (rule conjunct1, rule conjunct2 [THEN conjunct1], rule conjunct2 [THEN conjunct2])
  from idx have il: "index \<le> length xs" by (simp add: size_def sz)
  from call have c: "insert (m_data v, index) value v w = (Inr it, v', w')"
    by (simp only: advance_begin)
  let ?ys = "take index xs @ x # drop index xs"
  from insert_outcome(2) [OF assms il d c refl]
  have it: "it = (m_data v', index)" and h: "holds w' v' ?ys"
    by (rule conjunct1, rule conjunct2)
  have "at w' v' index = Inr (?ys ! index)"
    using h by (rule holds_at) (use il in simp)
  then have a: "at w' v' index = Inr x"
    using il by (simp add: nth_append)
  show "it = advance (begin_it v') index" by (simp add: it)
  show "fst it = data v'" by (simp add: it data_def)
  show "at w' v' (snd it) = Inr x" using a by (simp add: it)
next
  note sz = holds_size [OF assms]
  assume "f \<le> l \<and> l \<le> size v"
  then have fl: "f \<le> l" and ll: "l \<le> length xs"
    by (simp_all add: size_def sz)
  let ?ys = "take f xs @ drop l xs"
  let ?u = "v\<lparr>m_size := length xs - (l - f)\<rparr>"
  from erase_outcome [OF assms fl ll] obtain w1 where
    e: "erase (m_data v, f) (m_data v, l) v w = (Inr (m_data v, f), ?u, w1)"
    and h: "holds w1 ?u ?ys"
    by (elim exE conjE)
  have a: "at w1 ?u f = Inr (xs ! l)" if "l < size v"
  proof -
    from that have l: "l < length xs" by (simp add: size_def sz)
    have "at w1 ?u f = Inr (?ys ! f)"
      using h by (rule holds_at) (use fl l in simp)
    then show ?thesis using fl l by (simp add: nth_append)
  qed
  have b: "advance (begin_it ?u) f = end_it ?u" if "l = size v"
    using that fl by (simp add: end_it_def size_def sz)
  show "\<exists>u w1. erase (advance (begin_it v) f) (advance (begin_it v) l) v w =
            (Inr (advance (begin_it u) f), u, w1) \<and>
          (l < size v \<longrightarrow> at w1 u f = Inr (xs ! l)) \<and>
          (l = size v \<longrightarrow> advance (begin_it u) f = end_it u)"
  proof (intro exI [of _ ?u] exI [of _ w1] conjI impI)
    show "erase (advance (begin_it v) f) (advance (begin_it v) l) v w =
            (Inr (advance (begin_it ?u) f), ?u, w1)"
      using e by simp
    show "at w1 ?u f = Inr (xs ! l)" if "l < size v" using that by (rule a)
    show "advance (begin_it ?u) f = end_it ?u" if "l = size v" using that by (rule b)
  qed
next
  note sz = holds_size [OF assms]
  assume "p < size v"
  then have pl: "p < length xs"
    by (simp add: size_def sz)
  let ?ys = "take p xs @ drop (Suc p) xs"
  let ?u = "v\<lparr>m_size := length xs - 1\<rparr>"
  from erase_one_outcome [OF assms pl] obtain w1 where
    e: "erase_one (m_data v, p) v w = (Inr (m_data v, p), ?u, w1)"
    and h: "holds w1 ?u ?ys"
    by (elim exE conjE)
  have a: "at w1 ?u p = Inr (xs ! (p + 1))" if "p + 1 < size v"
  proof -
    from that have l: "Suc p < length xs" by (simp add: size_def sz)
    have "at w1 ?u p = Inr (?ys ! p)"
      using h by (rule holds_at) (use l in simp)
    then show ?thesis using l by (simp add: nth_append)
  qed
  have b: "advance (begin_it ?u) p = end_it ?u" if "p + 1 = size v"
    using that by (simp add: end_it_def size_def sz)
  show "\<exists>u w1. erase_one (advance (begin_it v) p) v w =
            (Inr (advance (begin_it u) p), u, w1) \<and>
          (p + 1 < size v \<longrightarrow> at w1 u p = Inr (xs ! (p + 1))) \<and>
          (p + 1 = size v \<longrightarrow> advance (begin_it u) p = end_it u)"
  proof (intro exI [of _ ?u] exI [of _ w1] conjI impI)
    show "erase_one (advance (begin_it v) p) v w = (Inr (advance (begin_it ?u) p), ?u, w1)"
      using e by simp
    show "at w1 ?u p = Inr (xs ! (p + 1))" if "p + 1 < size v" using that by (rule a)
    show "advance (begin_it ?u) p = end_it ?u" if "p + 1 = size v" using that by (rule b)
  qed
qed


theorem returned_iterators_witness:
  "holds \<lparr>heap = [Some [Some 5, Some 7, Some 9, None]], faults = [], trace = []\<rparr>
         \<lparr>m_data = Some 0, m_size = 3, m_capacity = 4\<rparr> [5, 7, 9 :: nat] \<and>
   (\<exists>u w1. erase_one (advance (begin_it \<lparr>m_data = Some 0, m_size = 3, m_capacity = 4\<rparr>) 1)
        \<lparr>m_data = Some 0, m_size = 3, m_capacity = 4\<rparr>
        \<lparr>heap = [Some [Some 5, Some 7, Some (9 :: nat), None]], faults = [], trace = []\<rparr> =
        (Inr (advance (begin_it u) 1), u, w1) \<and> at w1 u 1 = Inr 9) \<and>
   (\<exists>u w1. erase (advance (begin_it \<lparr>m_data = Some 0, m_size = 3, m_capacity = 4\<rparr>) 1)
        (advance (begin_it \<lparr>m_data = Some 0, m_size = 3, m_capacity = 4\<rparr>) 3)
        \<lparr>m_data = Some 0, m_size = 3, m_capacity = 4\<rparr>
        \<lparr>heap = [Some [Some 5, Some 7, Some (9 :: nat), None]], faults = [], trace = []\<rparr> =
        (Inr (advance (begin_it u) 1), u, w1) \<and> advance (begin_it u) 1 = end_it u) \<and>
   (\<exists>v' w'. insert (advance (begin_it \<lparr>m_data = Some 0, m_size = 3, m_capacity = 4\<rparr>) 1)
        (Object 6) \<lparr>m_data = Some 0, m_size = 3, m_capacity = 4\<rparr>
        \<lparr>heap = [Some [Some 5, Some 7, Some (9 :: nat), None]], faults = [], trace = []\<rparr> =
        (Inr (advance (begin_it v') 1), v', w') \<and> at w' v' 1 = Inr 6)"
proof -
  let ?v = "\<lparr>m_data = Some 0, m_size = 3, m_capacity = 4\<rparr>"
  let ?w = "\<lparr>heap = [Some [Some 5, Some 7, Some 9, None]], faults = [], trace = []\<rparr> :: nat world"
  have h: "holds ?w ?v [5, 7, 9]"
    by (simp add: holds_def layout_def)
  let ?v' = "\<lparr>m_data = Some 0, m_size = 4, m_capacity = 4\<rparr>"
  let ?w' = "\<lparr>heap = [Some [Some 5, Some 6, Some 7, Some 9]], faults = [],
               trace = [Move_Construct 0 3 6]\<rparr> :: nat world"
  note th = returned_iterators [OF h, of 1 "Object 6" 6 "(Some 0, 1)" ?v' ?w' 1 3 1]
  have call: "insert (advance (begin_it ?v) 1) (Object 6) ?v ?w = (Inr (Some 0, 1), ?v', ?w')"
    by code_simp
  have "1 \<le> size ?v" and "deref ?w (Object 6) = Some 6"
    by (simp_all add: size_def deref_def)
  with call have pre: "1 \<le> size ?v \<and> deref ?w (Object 6) = Some 6 \<and>
      insert (advance (begin_it ?v) 1) (Object 6) ?v ?w = (Inr (Some 0, 1), ?v', ?w')"
    by (intro conjI)
  note ic = th [THEN conjunct1, THEN mp, OF pre]
  from ic have i1: "(Some 0, 1) = advance (begin_it ?v') 1"
    by (rule conjunct1)
  note i2 = ic [THEN conjunct2, THEN conjunct2]
  from call i1 have call': "insert (advance (begin_it ?v) 1) (Object 6) ?v ?w =
      (Inr (advance (begin_it ?v') 1), ?v', ?w')"
    by (simp only:)
  from i2 have i2': "at ?w' ?v' 1 = Inr 6"
    by (simp only: snd_conv)
  have p: "1 < size ?v"
    by (simp add: size_def)
  from th [THEN conjunct2, THEN conjunct2, THEN mp, OF p] obtain u w1
    where e: "erase_one (advance (begin_it ?v) 1) ?v ?w = (Inr (advance (begin_it u) 1), u, w1)"
      and a: "1 + 1 < size ?v \<longrightarrow> at w1 u 1 = Inr ([5, 7, 9] ! (1 + 1))"
    by (elim exE conjE)
  from a have a': "at w1 u 1 = Inr 9"
    by (simp add: size_def)
  have fl: "(1 :: nat) \<le> 3 \<and> 3 \<le> size ?v"
    by (simp add: size_def)
  from th [THEN conjunct2, THEN conjunct1, THEN mp, OF fl] obtain u2 w2
    where e2: "erase (advance (begin_it ?v) 1) (advance (begin_it ?v) 3) ?v ?w =
        (Inr (advance (begin_it u2) 1), u2, w2)"
      and b: "3 = size ?v \<longrightarrow> advance (begin_it u2) 1 = end_it u2"
    by (elim exE conjE)
  from b have b': "advance (begin_it u2) 1 = end_it u2"
    by (simp add: size_def)
  show ?thesis
  proof (intro conjI)
    show "holds ?w ?v [5, 7, 9]" by (rule h)
    show "\<exists>u w1. erase_one (advance (begin_it ?v) 1) ?v ?w =
        (Inr (advance (begin_it u) 1), u, w1) \<and> at w1 u 1 = Inr 9"
      using e a' by (intro exI conjI)
    show "\<exists>u w1. erase (advance (begin_it ?v) 1) (advance (begin_it ?v) 3) ?v ?w =
        (Inr (advance (begin_it u) 1), u, w1) \<and> advance (begin_it u) 1 = end_it u"
      using e2 b' by (intro exI conjI)
    show "\<exists>v' w'. insert (advance (begin_it ?v) 1) (Object 6) ?v ?w =
        (Inr (advance (begin_it v') 1), v', w') \<and> at w' v' 1 = Inr 6"
      using call' i2' by (intro exI conjI)
  qed
qed

section \<open>The invariant of the members\<close>

lemma invariant_iff:
  "invariant v \<longleftrightarrow> m_size v \<le> m_capacity v \<and> (m_capacity v = 0 \<longrightarrow> m_data v = None)"
  by (auto simp: invariant_def size_def capacity_def data_def)

lemma invariant_default: "invariant vector_default"
  by (simp add: invariant_iff vector_default_def)

lemma vector_with_capacity_result:
  assumes "vector_with_capacity (Other ov) n w = (Inr c, w')"
  shows "(n = 0 \<and> c = vector_default) \<or>
         (0 < n \<and> (\<exists>a. c = \<lparr>m_data = Some a, m_size = m_size ov, m_capacity = n\<rparr>))"
  using assms
  by (auto simp: vector_with_capacity_def split: if_splits prod.splits sum.splits)

lemma vector_with_capacity_invariant:
  assumes "vector_with_capacity (Other ov) n w = (Inr c, w')" and "m_size ov \<le> n"
  shows "invariant c"
  using vector_with_capacity_result [OF assms(1)] assms(2)
  by (auto simp: invariant_iff vector_default_def)

lemma pop_back_members:
  assumes "pop_back v w = (r, v', w')"
  shows "m_data v' = m_data v \<and> m_capacity v' = m_capacity v \<and> m_size v' \<le> m_size v"
  using assms
  by (auto simp: pop_back_def split: if_splits prod.splits sum.splits)

lemma pop_back_times_members:
  assumes "pop_back_times k v w = (r, v', w')"
  shows "m_data v' = m_data v \<and> m_capacity v' = m_capacity v \<and> m_size v' \<le> m_size v"
  using assms
proof (induction k arbitrary: v w)
  case 0
  then show ?case by simp
next
  case (Suc k)
  obtain r1 v1 w1 where p: "pop_back v w = (r1, v1, w1)"
    by (rule prod_cases3)
  note m = pop_back_members [OF p]
  show ?case
  proof (cases r1)
    case (Inl e)
    with Suc.prems p m show ?thesis by simp
  next
    case (Inr u)
    with Suc.prems p have "pop_back_times k v1 w1 = (r, v', w')" by simp
    from Suc.IH [OF this] m show ?thesis by simp
  qed
qed

lemma members_invariant:
  assumes "invariant v" and "m_data v' = m_data v \<and> m_capacity v' = m_capacity v \<and> m_size v' \<le> m_size v"
  shows "invariant v'"
  using assms by (auto simp: invariant_iff)

lemma pop_back_invariant:
  "invariant v \<Longrightarrow> pop_back v w = (r, v', w') \<Longrightarrow> invariant v'"
  by (erule members_invariant) (rule pop_back_members)

lemma clear_invariant:
  assumes "invariant v" and "clear v w = (r, v', w')"
  shows "invariant v'"
proof -
  obtain r1 v1 w1 where p: "pop_back_times (m_size v) v w = (r1, v1, w1)"
    by (rule prod_cases3)
  note m = pop_back_times_members [OF p]
  from assms(2) p have "v' = v1 \<or> v' = v1\<lparr>m_size := 0\<rparr>"
    by (cases r1) (auto simp: clear_def)
  with m have "m_data v' = m_data v \<and> m_capacity v' = m_capacity v \<and> m_size v' \<le> m_size v"
    by auto
  with assms(1) show ?thesis by (rule members_invariant)
qed

lemma swap_in_result: "swap_in tmp v w = (r, v', w') \<Longrightarrow> v' = tmp"
  by (auto simp: swap_in_def swap_def split: prod.splits sum.splits)

lemma unwind_result: "unwind e tmp v w = (r, v', w') \<Longrightarrow> v' = v"
  by (auto simp: unwind_def split: if_splits prod.splits sum.splits)

lemma push_back_spare_result:
  assumes "m_size v < m_capacity v" and "push_back x v w = (r, v', w')"
  shows "v' = v \<or> v' = v\<lparr>m_size := m_size v + 1\<rparr>"
  using assms(2) by (subst (asm) push_back.simps) (auto simp: assms(1) split: prod.splits sum.splits)

lemma push_back_invariant:
  assumes "invariant v" and "push_back x v w = (r, v', w')"
  shows "invariant v'"
proof (cases "m_size v < m_capacity v")
  case True
  from push_back_spare_result [OF True assms(2)] assms(1) True show ?thesis
    by (auto simp: invariant_iff)
next
  case False
  let ?n = "if m_capacity v = 0 then 1 else m_capacity v * 2 + 1"
  obtain r1 w1 where c: "vector_with_capacity (Other v) ?n w = (r1, w1)"
    by (rule prod.exhaust)
  show ?thesis
  proof (cases r1)
    case (Inl e)
    with assms(2) False c have "v' = v"
      by (subst (asm) push_back.simps) simp
    with assms(1) show ?thesis by simp
  next
    case (Inr tmp)
    with c vector_with_capacity_result [of v ?n w tmp w1]
    obtain a where tmp: "tmp = \<lparr>m_data = Some a, m_size = m_size v, m_capacity = ?n\<rparr>"
      by (auto split: if_splits)
    from assms(1) have lt: "m_size tmp < m_capacity tmp"
      by (auto simp: tmp invariant_iff)
    obtain r2 w2 where pv: "pass_by_value x w1 = (r2, w2)"
      by (rule prod.exhaust)
    show ?thesis
    proof (cases r2)
      case (Inl e)
      with assms(2) False c Inr pv have "unwind e tmp v w2 = (r, v', w')"
        by (subst (asm) push_back.simps) simp
      from unwind_result [OF this] assms(1) show ?thesis by simp
    next
      case (Inr x')
      obtain r3 tmp1 w3 where inner: "push_back x' tmp w2 = (r3, tmp1, w3)"
        by (rule prod_cases3)
      from push_back_spare_result [OF lt inner] lt have i1: "invariant tmp1"
        by (auto simp: invariant_iff tmp)
      show ?thesis
      proof (cases r3)
        case (Inl e)
        with assms(2) False c \<open>r1 = Inr tmp\<close> pv \<open>r2 = Inr x'\<close> inner
        have "unwind e tmp1 v w3 = (r, v', w')"
          by (subst (asm) push_back.simps) simp
        from unwind_result [OF this] assms(1) show ?thesis by simp
      next
        case (Inr u)
        with assms(2) False c \<open>r1 = Inr tmp\<close> pv \<open>r2 = Inr x'\<close> inner
        have "swap_in tmp1 v w3 = (r, v', w')"
          by (subst (asm) push_back.simps) simp
        from swap_in_result [OF this] i1 show ?thesis by simp
      qed
    qed
  qed
qed

lemma push_back_lvalue_invariant:
  assumes "invariant v" and "push_back_lvalue ref v w = (r, v', w')"
  shows "invariant v'"
proof (cases "deref w ref")
  case None
  with assms show ?thesis by (simp add: push_back_lvalue_def)
next
  case (Some x)
  obtain r1 w1 where pv: "pass_by_value x w = (r1, w1)"
    by (rule prod.exhaust)
  show ?thesis
  proof (cases r1)
    case (Inl e)
    with assms Some pv show ?thesis by (simp add: push_back_lvalue_def)
  next
    case (Inr x')
    with assms(2) Some pv have "push_back x' v w1 = (r, v', w')"
      by (simp add: push_back_lvalue_def)
    with assms(1) show ?thesis by (rule push_back_invariant)
  qed
qed

lemma rebuild_invariant:
  assumes "invariant v" and "m_size ov \<le> n"
    and "(case vector_with_capacity (Other ov) n w of
            (Inl e, w1) \<Rightarrow> (Inl e, v, w1)
          | (Inr tmp, w1) \<Rightarrow> swap_in tmp v w1) = (r, v', w')"
  shows "invariant v'"
proof -
  obtain r1 w1 where c: "vector_with_capacity (Other ov) n w = (r1, w1)"
    by (rule prod.exhaust)
  show ?thesis
  proof (cases r1)
    case (Inl e)
    with assms(1,3) c show ?thesis by simp
  next
    case (Inr tmp)
    with assms(3) c have "swap_in tmp v w1 = (r, v', w')" by simp
    from swap_in_result [OF this] vector_with_capacity_invariant [OF c [unfolded Inr] assms(2)]
    show ?thesis by simp
  qed
qed

lemma reserve_invariant:
  assumes "invariant v" and "reserve n v w = (r, v', w')"
  shows "invariant v'"
proof (cases "capacity v < n")
  case True
  with assms(1) have "m_size v \<le> n"
    by (simp add: invariant_iff capacity_def)
  with assms(1) show ?thesis
    by (rule rebuild_invariant) (use assms(2) True in \<open>simp add: reserve_def\<close>)
next
  case False
  with assms show ?thesis by (simp add: reserve_def)
qed

lemma shrink_to_fit_invariant:
  assumes "invariant v" and "shrink_to_fit v w = (r, v', w')"
  shows "invariant v'"
proof (cases "size v \<noteq> capacity v")
  case True
  have "m_size v \<le> size v" by (simp add: size_def)
  with assms(1) show ?thesis
    by (rule rebuild_invariant) (use assms(2) True in \<open>simp add: shrink_to_fit_def\<close>)
next
  case False
  with assms show ?thesis by (simp add: shrink_to_fit_def)
qed

lemma assign_copy_invariant:
  assumes "invariant v" and "assign_copy other v w = (r, v', w')"
  shows "invariant v'"
proof (cases other)
  case Self
  with assms show ?thesis by (simp add: assign_copy_def)
next
  case (Other ov)
  have "m_size ov \<le> m_size ov" by simp
  with assms(1) show ?thesis
    by (rule rebuild_invariant) (use assms(2) Other in \<open>simp add: assign_copy_def vector_copy_def\<close>)
qed

lemma assign_move_invariant:
  assumes "invariant v" and "assign_move other v w = (r, v', left, w')"
  shows "(other = Self \<longrightarrow> v' = v \<and> left = Self) \<and>
    (\<forall>ov. other = Other ov \<longrightarrow>
       (v' = vector_default \<and> left = Other ov) \<or> (v' = ov \<and> left = Other vector_default))"
proof (cases other)
  case Self
  with assms show ?thesis by (simp add: assign_move_def)
next
  case (Other ov)
  obtain r1 v1 w1 where s: "swap_in vector_default v w = (r1, v1, w1)"
    by (rule prod_cases3)
  from swap_in_result [OF s] have v1: "v1 = vector_default" .
  from assms(2) Other s v1 show ?thesis
    by (cases r1) (auto simp: assign_move_def swap_def)
qed

lemma insert_invariant:
  assumes "invariant v" and "insert pos ref v w = (r, v', w')"
  shows "invariant v'"
proof (cases "fst pos \<noteq> fst (begin_it v)")
  case True
  with assms show ?thesis by (simp add: insert_def)
next
  case False
  obtain r1 v1 w1 where p: "push_back_lvalue ref v w = (r1, v1, w1)"
    by (rule prod_cases3)
  from assms(1) p have i1: "invariant v1" by (rule push_back_lvalue_invariant)
  from assms(2) False p have "v' = v1"
    by (cases r1) (auto simp: insert_def split: prod.splits sum.splits)
  with i1 show ?thesis by simp
qed

lemma erase_invariant:
  assumes "invariant v" and "erase first_it last_it v w = (r, v', w')"
  shows "invariant v'"
proof (cases "fst first_it \<noteq> fst (begin_it v) \<or> fst last_it \<noteq> fst (begin_it v)
         \<or> snd last_it < snd first_it \<or> size v < snd last_it")
  case True
  with assms show ?thesis by (simp add: erase_def)
next
  case False
  obtain r1 w1 where s: "swap_down (m_data v) (snd last_it) (snd first_it) 0 (size v - snd last_it) w = (r1, w1)"
    by (rule prod.exhaust)
  show ?thesis
  proof (cases r1)
    case (Inl e)
    with assms False s show ?thesis by (simp add: erase_def)
  next
    case (Inr u)
    obtain r2 v2 w2 where p: "pop_back_times (snd last_it - snd first_it) v w1 = (r2, v2, w2)"
      by (rule prod_cases3)
    from assms(2) False s Inr p have "v' = v2"
      by (cases r2) (simp_all add: erase_def)
    with pop_back_times_members [OF p] assms(1) show ?thesis
      by (auto intro: members_invariant)
  qed
qed

lemma erase_one_invariant:
  "invariant v \<Longrightarrow> erase_one pos v w = (r, v', w') \<Longrightarrow> invariant v'"
  unfolding erase_one_def by (rule erase_invariant)

lemma after_member_invariant:
  assumes "\<forall>u\<in>set vs. invariant u" and "after_member i vs (r, v', w') = Some (vs', w'')"
    and "invariant v'"
  shows "\<forall>u\<in>set vs'. invariant u"
proof -
  from assms(2) have "vs' = vs[i := v']"
    by (simp add: after_member_def split: if_splits)
  with assms(1,3) set_update_subset_insert [of vs i v'] show ?thesis
    by auto
qed

lemma run_invariant:
  assumes "\<forall>u\<in>set vs. invariant u" and "run c (vs, w) = Some (vs', w')"
  shows "\<forall>u\<in>set vs'. invariant u"
proof (cases c)
  case Default_Construct
  with assms invariant_default show ?thesis by auto
next
  case (Copy_Construct_From j)
  with assms(2) have j: "j < length vs" by (simp split: if_splits)
  obtain r1 w1 where c: "vector_copy (vs ! j) w = (r1, w1)"
    by (rule prod.exhaust)
  show ?thesis
  proof (cases r1)
    case (Inl e)
    with assms Copy_Construct_From j c show ?thesis by (simp split: if_splits)
  next
    case (Inr cp)
    with c have "invariant cp"
      unfolding vector_copy_def by (intro vector_with_capacity_invariant) auto
    with assms Copy_Construct_From j c Inr show ?thesis by auto
  qed
next
  case (Move_Construct_From j)
  with assms(2) have "vs' = vs[j := vector_default] @ [vs ! j]" and j: "j < length vs"
    by (simp_all add: vector_move_def split: if_splits)
  with assms(1) set_update_subset_insert [of vs j vector_default] invariant_default
  show ?thesis by auto
next
  case (Assign_Copy i j)
  with assms(2) have i: "i < length vs" by (simp split: if_splits)
  obtain r1 v1 w1 where
    c: "assign_copy (if i = j then Self else Other (vs ! j)) (vs ! i) w = (r1, v1, w1)"
    by (rule prod_cases3)
  from assms(1) i have "invariant (vs ! i)" by simp
  then have "invariant v1" using c by (rule assign_copy_invariant)
  with assms Assign_Copy c show ?thesis
    by (auto split: if_splits intro: after_member_invariant [THEN bspec])
next
  case (Assign_Move i j)
  with assms(2) have i: "i < length vs" and j: "j < length vs" by (simp_all split: if_splits)
  obtain r1 v1 left w1 where
    c: "assign_move (if i = j then Self else Other (vs ! j)) (vs ! i) w = (r1, v1, left, w1)"
    by (metis prod_cases4)
  from assms(1) i j have ii: "invariant (vs ! i)" and ij: "invariant (vs ! j)" by simp_all
  note am = assign_move_invariant [OF ii c]
  from assms(2) Assign_Move i j c
  have vs': "vs' = (case left of Self \<Rightarrow> vs | Other ov \<Rightarrow> vs[j := ov])[i := v1]"
    by (simp split: if_splits)
  show ?thesis
  proof (cases "i = j")
    case True
    with am have "v1 = vs ! i" "left = Self" by simp_all
    with vs' assms(1) show ?thesis by (simp add: list_update_id)
  next
    case False
    with am have "(v1 = vector_default \<and> left = Other (vs ! j)) \<or>
        (v1 = vs ! j \<and> left = Other vector_default)"
      by simp
    then have "invariant v1 \<and> (\<exists>ov. left = Other ov \<and> invariant ov)"
      using ij invariant_default by auto
    then obtain ov where "invariant v1" "left = Other ov" "invariant ov" by blast
    with vs' assms(1) set_update_subset_insert [of vs j ov]
      set_update_subset_insert [of "vs[j := ov]" i v1]
    show ?thesis by auto
  qed
next
  case (Destroy_Object i)
  with assms(2) have "vs' = take i vs @ drop (Suc i) vs"
    by (auto split: if_splits prod.splits sum.splits)
  with assms(1) show ?thesis
    by (auto dest: in_set_takeD in_set_dropD)
next
  case (Push_Back i x)
  with assms(2) have i: "i < length vs" by (simp split: if_splits)
  obtain r1 v1 w1 where c: "push_back x (vs ! i) w = (r1, v1, w1)"
    by (rule prod_cases3)
  from assms(1) i have "invariant (vs ! i)" by simp
  then have "invariant v1" using c by (rule push_back_invariant)
  with assms Push_Back i c show ?thesis
    by (auto intro: after_member_invariant [THEN bspec])
next
  case (Push_Back_Lvalue i ref)
  with assms(2) have i: "i < length vs" by (simp split: if_splits)
  obtain r1 v1 w1 where c: "push_back_lvalue ref (vs ! i) w = (r1, v1, w1)"
    by (rule prod_cases3)
  from assms(1) i have "invariant (vs ! i)" by simp
  then have "invariant v1" using c by (rule push_back_lvalue_invariant)
  with assms Push_Back_Lvalue i c show ?thesis
    by (auto intro: after_member_invariant [THEN bspec])
next
  case (Pop_Back i)
  with assms(2) have i: "i < length vs" by (simp split: if_splits)
  obtain r1 v1 w1 where c: "pop_back (vs ! i) w = (r1, v1, w1)"
    by (rule prod_cases3)
  from assms(1) i have "invariant (vs ! i)" by simp
  then have "invariant v1" using c by (rule pop_back_invariant)
  with assms Pop_Back i c show ?thesis
    by (auto intro: after_member_invariant [THEN bspec])
next
  case (Reserve i n)
  with assms(2) have i: "i < length vs" by (simp split: if_splits)
  obtain r1 v1 w1 where c: "reserve n (vs ! i) w = (r1, v1, w1)"
    by (rule prod_cases3)
  from assms(1) i have "invariant (vs ! i)" by simp
  then have "invariant v1" using c by (rule reserve_invariant)
  with assms Reserve i c show ?thesis
    by (auto intro: after_member_invariant [THEN bspec])
next
  case (Shrink_To_Fit i)
  with assms(2) have i: "i < length vs" by (simp split: if_splits)
  obtain r1 v1 w1 where c: "shrink_to_fit (vs ! i) w = (r1, v1, w1)"
    by (rule prod_cases3)
  from assms(1) i have "invariant (vs ! i)" by simp
  then have "invariant v1" using c by (rule shrink_to_fit_invariant)
  with assms Shrink_To_Fit i c show ?thesis
    by (auto intro: after_member_invariant [THEN bspec])
next
  case (Clear i)
  with assms(2) have i: "i < length vs" by (simp split: if_splits)
  obtain r1 v1 w1 where c: "clear (vs ! i) w = (r1, v1, w1)"
    by (rule prod_cases3)
  from assms(1) i have "invariant (vs ! i)" by simp
  then have "invariant v1" using c by (rule clear_invariant)
  with assms Clear i c show ?thesis
    by (auto intro: after_member_invariant [THEN bspec])
next
  case (Swap i j)
  with assms(2) have i: "i < length vs" and j: "j < length vs"
    and vs': "vs' = vs[j := vs ! i, i := vs ! j]"
    by (simp_all add: swap_def split: if_splits)
  from assms(1) i j have "invariant (vs ! i)" "invariant (vs ! j)" by simp_all
  with vs' assms(1) set_update_subset_insert [of vs j "vs ! i"]
    set_update_subset_insert [of "vs[j := vs ! i]" i "vs ! j"]
  show ?thesis by auto
next
  case (Insert i pos ref)
  with assms(2) have i: "i < length vs" by (simp split: if_splits)
  obtain r1 v1 w1 where c: "insert pos ref (vs ! i) w = (r1, v1, w1)"
    by (rule prod_cases3)
  from assms(1) i have "invariant (vs ! i)" by simp
  then have "invariant v1" using c by (rule insert_invariant)
  with assms Insert i c show ?thesis
    by (auto intro: after_member_invariant [THEN bspec])
next
  case (Erase_One i pos)
  with assms(2) have i: "i < length vs" by (simp split: if_splits)
  obtain r1 v1 w1 where c: "erase_one pos (vs ! i) w = (r1, v1, w1)"
    by (rule prod_cases3)
  from assms(1) i have "invariant (vs ! i)" by simp
  then have "invariant v1" using c by (rule erase_one_invariant)
  with assms Erase_One i c show ?thesis
    by (auto intro: after_member_invariant [THEN bspec])
next
  case (Erase i first_it last_it)
  with assms(2) have i: "i < length vs" by (simp split: if_splits)
  obtain r1 v1 w1 where c: "erase first_it last_it (vs ! i) w = (r1, v1, w1)"
    by (rule prod_cases3)
  from assms(1) i have "invariant (vs ! i)" by simp
  then have "invariant v1" using c by (rule erase_invariant)
  with assms Erase i c show ?thesis
    by (auto intro: after_member_invariant [THEN bspec])
next
  case (Arm_Faults fs)
  with assms show ?thesis by auto
qed

lemma run_all_invariant:
  assumes "\<forall>u\<in>set (fst s). invariant u" and "run_all cs s = Some s'"
  shows "\<forall>u\<in>set (fst s'). invariant u"
  using assms
proof (induction cs arbitrary: s)
  case Nil
  then show ?case by simp
next
  case (Cons c cs)
  from Cons.prems(2) obtain s1 where r: "run c s = Some s1" and rest: "run_all cs s1 = Some s'"
    by (auto split: option.splits)
  from run_invariant [of "fst s" c "snd s" "fst s1" "snd s1"] Cons.prems(1) r
  have "\<forall>u\<in>set (fst s1). invariant u" by simp
  then show ?case using rest by (rule Cons.IH)
qed


text \<open>
  Claim C9.  Whatever sequence of calls is run from the start (constructions, destructions,
  assignments, swaps and every mutator, with any arguments and any planted faults, so
  calls that throw and roll back included), every container alive in a state that the
  sequence reaches has \<open>size \<le> capacity\<close>, and a null data pointer and size zero when
  its capacity is zero.  Moreover every single call preserves this invariant of all the
  containers alive.  A call whose behaviour is undefined reaches no state.
\<close>

theorem invariant_of_reachable_states:
  "(run_all cs initial = Some (vs, w) \<longrightarrow>
      (\<forall>v\<in>set vs. size v \<le> capacity v \<and> (capacity v = 0 \<longrightarrow> data v = None \<and> size v = 0))) \<and>
   ((\<forall>v\<in>set vs0. invariant v) \<and> run c (vs0, w0) = Some (vs1, w1) \<longrightarrow>
      (\<forall>v\<in>set vs1. invariant v))"
proof (rule conjI; rule impI)
  assume r: "run_all cs initial = Some (vs, w)"
  have "\<forall>u\<in>set (fst (initial :: vec list \<times> 'a world)). invariant u"
    by (simp add: initial_def)
  from run_all_invariant [OF this r] have "\<forall>v\<in>set vs. invariant v"
    by simp
  then show "\<forall>v\<in>set vs. size v \<le> capacity v \<and> (capacity v = 0 \<longrightarrow> data v = None \<and> size v = 0)"
    by (simp add: invariant_def)
next
  assume "(\<forall>v\<in>set vs0. invariant v) \<and> run c (vs0, w0) = Some (vs1, w1)"
  then have "\<forall>v\<in>set vs0. invariant v" and "run c (vs0, w0) = Some (vs1, w1)"
    by (rule conjunct1, rule conjunct2)
  then show "\<forall>v\<in>set vs1. invariant v"
    by (rule run_invariant)
qed

theorem invariant_of_reachable_states_witness:
  "run_all [Default_Construct, Push_Back 0 (5 :: nat), Arm_Faults [False, True], Push_Back 0 7,
      Push_Back 0 9, Copy_Construct_From 0, Pop_Back 1, Default_Construct, Swap 0 2] initial =
     Some ([\<lparr>m_data = None, m_size = 0, m_capacity = 0\<rparr>,
            \<lparr>m_data = Some 3, m_size = 1, m_capacity = 2\<rparr>,
            \<lparr>m_data = Some 2, m_size = 2, m_capacity = 3\<rparr>],
           \<lparr>heap = [None, None, Some [Some 5, Some 9, None], Some [Some 5, None]],
             faults = [],
             trace = [Allocate 0 1, Move_Construct 0 0 5, Allocate 1 3, Deallocate 1,
               Allocate 2 3, Copy_Construct 2 0 5, Move_Construct 2 1 9, Destroy 0 0 5,
               Deallocate 0, Allocate 3 2, Copy_Construct 3 0 5, Copy_Construct 3 1 9,
               Destroy 3 1 9]\<rparr>) \<and>
   size \<lparr>m_data = Some 2, m_size = 2, m_capacity = 3\<rparr>
     \<le> capacity \<lparr>m_data = Some 2, m_size = 2, m_capacity = 3\<rparr> \<and>
   size \<lparr>m_data = Some 3, m_size = 1, m_capacity = 2\<rparr>
     \<le> capacity \<lparr>m_data = Some 3, m_size = 1, m_capacity = 2\<rparr> \<and>
   capacity \<lparr>m_data = None, m_size = 0, m_capacity = 0\<rparr> = 0 \<and>
   data \<lparr>m_data = None, m_size = 0, m_capacity = 0\<rparr> = None \<and>
   size \<lparr>m_data = None, m_size = 0, m_capacity = 0\<rparr> = 0 \<and>
   run (Pop_Back 0) ([\<lparr>m_data = Some 0, m_size = 1, m_capacity = 1\<rparr>],
        \<lparr>heap = [Some [Some (5 :: nat)]], faults = [], trace = []\<rparr>) =
     Some ([\<lparr>m_data = Some 0, m_size = 0, m_capacity = 1\<rparr>],
           \<lparr>heap = [Some [None]], faults = [], trace = [Destroy 0 0 5]\<rparr>) \<and>
   size \<lparr>m_data = Some 0, m_size = 0, m_capacity = 1\<rparr>
     \<le> capacity \<lparr>m_data = Some 0, m_size = 0, m_capacity = 1\<rparr>"
proof -
  let ?cs = "[Default_Construct, Push_Back 0 (5 :: nat), Arm_Faults [False, True], Push_Back 0 7,
      Push_Back 0 9, Copy_Construct_From 0, Pop_Back 1, Default_Construct, Swap 0 2]"
  let ?a = "\<lparr>m_data = None, m_size = 0, m_capacity = 0\<rparr>"
  let ?b = "\<lparr>m_data = Some 3, m_size = 1, m_capacity = 2\<rparr>"
  let ?c = "\<lparr>m_data = Some 2, m_size = 2, m_capacity = 3\<rparr>"
  let ?w = "\<lparr>heap = [None, None, Some [Some 5, Some 9, None], Some [Some 5, None]],
             faults = [],
             trace = [Allocate 0 1, Move_Construct 0 0 5, Allocate 1 3, Deallocate 1,
               Allocate 2 3, Copy_Construct 2 0 5, Move_Construct 2 1 9, Destroy 0 0 5,
               Deallocate 0, Allocate 3 2, Copy_Construct 3 0 5, Copy_Construct 3 1 9,
               Destroy 3 1 9]\<rparr> :: nat world"
  let ?p = "\<lparr>m_data = Some 0, m_size = 1, m_capacity = 1\<rparr>"
  let ?q = "\<lparr>m_data = Some 0, m_size = 0, m_capacity = 1\<rparr>"
  let ?wp = "\<lparr>heap = [Some [Some (5 :: nat)]], faults = [], trace = []\<rparr>"
  let ?wq = "\<lparr>heap = [Some [None]], faults = [], trace = [Destroy 0 0 (5 :: nat)]\<rparr>"
  note th = invariant_of_reachable_states [of ?cs "[?a, ?b, ?c]" ?w "[?p]" "Pop_Back 0" ?wp "[?q]" ?wq]
  have r: "run_all ?cs initial = Some ([?a, ?b, ?c], ?w)"
    by code_simp
  note all = th [THEN conjunct1, THEN mp, OF r]
  have ia: "size ?a \<le> capacity ?a \<and> (capacity ?a = 0 \<longrightarrow> data ?a = None \<and> size ?a = 0)"
    using all by (rule bspec) simp
  have ib: "size ?b \<le> capacity ?b \<and> (capacity ?b = 0 \<longrightarrow> data ?b = None \<and> size ?b = 0)"
    using all by (rule bspec) simp
  have ic: "size ?c \<le> capacity ?c \<and> (capacity ?c = 0 \<longrightarrow> data ?c = None \<and> size ?c = 0)"
    using all by (rule bspec) simp
  have ca: "capacity ?a = 0"
    by (simp add: capacity_def)
  from ia ca have da: "data ?a = None" and sa: "size ?a = 0"
    by simp_all
  have ip: "\<forall>v\<in>set [?p]. invariant v"
    by (simp add: invariant_def size_def capacity_def)
  have s: "run (Pop_Back 0) ([?p], ?wp) = Some ([?q], ?wq)"
    by code_simp
  from ip s have pre: "(\<forall>v\<in>set [?p]. invariant v) \<and> run (Pop_Back 0) ([?p], ?wp) = Some ([?q], ?wq)"
    by (rule conjI)
  have "invariant ?q"
    using th [THEN conjunct2, THEN mp, OF pre] by (rule bspec) simp
  then have iq: "size ?q \<le> capacity ?q"
    by (simp add: invariant_def)
  show ?thesis
  proof (intro conjI)
    show "run_all ?cs initial = Some ([?a, ?b, ?c], ?w)" by (rule r)
    show "size ?c \<le> capacity ?c" using ic by (rule conjunct1)
    show "size ?b \<le> capacity ?b" using ib by (rule conjunct1)
    show "capacity ?a = 0" by (rule ca)
    show "data ?a = None" by (rule da)
    show "size ?a = 0" by (rule sa)
    show "run (Pop_Back 0) ([?p], ?wp) = Some ([?q], ?wq)" by (rule s)
    show "size ?q \<le> capacity ?q" by (rule iq)
  qed
qed

section \<open>Reachable states are well formed\<close>

lemma frame_refl: "frame p w w"
  by (simp add: frame_def)

lemma frame_heap_eq: "heap w' = heap w \<Longrightarrow> frame p w w'"
  by (simp add: frame_def)

lemma frame_append: "heap w' = heap w @ bs \<Longrightarrow> frame p w w'"
  by (simp add: frame_def nth_append)

lemma frame_with_block:
  "heap w' = with_block p b (heap w @ bs) \<Longrightarrow> frame p w w'"
  by (cases p) (auto simp: frame_def nth_append)

lemma frame_trans:
  assumes "frame p w w1" and "frame q w1 w2"
    and "q = None \<or> q = p \<or> (\<exists>a. q = Some a \<and> length (heap w) \<le> a)"
  shows "frame p w w2"
  unfolding frame_def
proof (intro conjI allI impI)
  from assms(1,2) show "length (heap w) \<le> length (heap w2)"
    by (simp add: frame_def)
  fix s assume s: "s < length (heap w)" and ne: "Some s \<noteq> p"
  from assms(1) s ne have 1: "heap w1 ! s = heap w ! s" and 2: "s < length (heap w1)"
    by (auto simp: frame_def)
  from assms(3) s ne have "Some s \<noteq> q" by auto
  with assms(2) 2 have "heap w2 ! s = heap w1 ! s" by (simp add: frame_def)
  with 1 show "heap w2 ! s = heap w ! s" by simp
qed

lemma holds_frame_other:
  assumes "holds w u ys" and "frame p w w'" and "m_data u = None \<or> m_data u \<noteq> p"
  shows "holds w' u ys"
  using assms(1)
proof (rule holds_frame)
  from assms(2) show "length (heap w) \<le> length (heap w')" by (simp add: frame_def)
  fix s assume s: "m_data u = Some s"
  with assms(1) have "s < length (heap w)" by (rule holds_data_bound)
  with s assms(2,3) show "heap w' ! s = heap w ! s" by (auto simp: frame_def)
qed

lemma well_formed_owns:
  assumes "well_formed (vs, w)" and "l < length vs"
  obtains ys where "holds w (vs ! l) ys"
proof -
  from assms(2) have "vs ! l \<in> set vs" by simp
  with assms(1) have "\<exists>xs. holds w (vs ! l) xs"
    unfolding well_formed_def fst_conv snd_conv by blast
  then show ?thesis using that by blast
qed

lemma well_formed_disjoint:
  assumes "well_formed (vs, w)" and "l < length vs" and "m < length vs" and "l \<noteq> m"
  shows "m_data (vs ! l) = None \<or> m_data (vs ! l) \<noteq> m_data (vs ! m)"
  using assms unfolding well_formed_def fst_conv snd_conv by blast

lemma well_formed_bound:
  assumes "well_formed (vs, w)" and "l < length vs" and "m_data (vs ! l) = Some a"
  shows "a < length (heap w)"
proof -
  from assms(1,2) obtain ys where "holds w (vs ! l) ys" by (rule well_formed_owns)
  then show ?thesis using assms(3) by (rule holds_data_bound)
qed

text \<open>What a member function may do to its own container and to the world.\<close>

lemma member_step:
  assumes wf: "well_formed (vs, w)" and i: "i < length vs"
    and own: "\<exists>ys. holds w' v' ys" and fr: "frame (m_data (vs ! i)) w w'"
    and dt: "m_data v' = None \<or> m_data v' = m_data (vs ! i)
               \<or> (\<exists>a. m_data v' = Some a \<and> length (heap w) \<le> a)"
  shows "well_formed (vs[i := v'], w')"
  unfolding well_formed_def fst_conv snd_conv
proof (intro conjI ballI allI impI)
  fix u assume "u \<in> set (vs[i := v'])"
  then obtain k where k: "k < length vs" and u: "u = vs[i := v'] ! k"
    by (auto simp: in_set_conv_nth)
  then consider "u = v'" | j where "j < length vs" "j \<noteq> i" "u = vs ! j"
    by (cases "k = i") auto
  then show "\<exists>xs. holds w' u xs"
  proof cases
    case 1
    with own show ?thesis by simp
  next
    case 2
    from wf 2(1) obtain ys where "holds w (vs ! j) ys" by (rule well_formed_owns)
    with 2 have h: "holds w u ys" by simp
    from well_formed_disjoint [OF wf 2(1) i 2(2)] 2(3)
    have "m_data u = None \<or> m_data u \<noteq> m_data (vs ! i)" by simp
    with h fr have "holds w' u ys" by (rule holds_frame_other)
    then show ?thesis ..
  qed
next
  fix j k assume j: "j < length (vs[i := v'])" and k: "k < length (vs[i := v'])" and ne: "j \<noteq> k"
  note bound = well_formed_bound [OF wf]
  note old = well_formed_disjoint [OF wf]
  show "m_data (vs[i := v'] ! j) = None \<or> m_data (vs[i := v'] ! j) \<noteq> m_data (vs[i := v'] ! k)"
  proof (cases "j = i")
    case True
    with ne have ki: "k \<noteq> i" by simp
    with k have kv: "vs[i := v'] ! k = vs ! k" by simp
    from True i have jv: "vs[i := v'] ! j = v'" by simp
    from dt show ?thesis
    proof (elim disjE exE conjE)
      assume "m_data v' = None"
      then show ?thesis by (simp add: jv)
    next
      assume "m_data v' = m_data (vs ! i)"
      with old [of i k] i k ki show ?thesis by (auto simp: jv kv)
    next
      fix a assume a: "m_data v' = Some a" "length (heap w) \<le> a"
      with bound [of k a] k show ?thesis by (auto simp: jv kv)
    qed
  next
    case False
    with j have jv: "vs[i := v'] ! j = vs ! j" by simp
    show ?thesis
    proof (cases "k = i")
      case True
      with i have kv: "vs[i := v'] ! k = v'" by simp
      from dt show ?thesis
      proof (elim disjE exE conjE)
        assume "m_data v' = None"
        with old [of j i] j i False show ?thesis by (auto simp: jv kv)
      next
        assume "m_data v' = m_data (vs ! i)"
        with old [of j i] i j False show ?thesis by (auto simp: jv kv)
      next
        fix a assume a: "m_data v' = Some a" "length (heap w) \<le> a"
        with bound [of j a] j show ?thesis by (auto simp: jv kv)
      qed
    next
      case kf: False
      with k have kv: "vs[i := v'] ! k = vs ! k" by simp
      from old [of j k] j k ne show ?thesis by (simp add: jv kv)
    qed
  qed
qed


lemma step_okI:
  assumes "holds w' v' ys" and "frame (m_data v) w w'"
    and "m_data v' = None \<or> m_data v' = m_data v \<or>
       (\<exists>a. m_data v' = Some a \<and> length (heap w) \<le> a)"
  shows "step_ok w v w' v'"
  using assms unfolding step_ok_def by blast

lemma step_ok_heap:
  assumes "step_ok w1 v w' v'" and "heap w1 = heap w"
  shows "step_ok w v w' v'"
  using assms by (simp add: step_ok_def frame_def)

lemma step_ok_unchanged:
  assumes "holds w v xs" and "heap w' = heap w @ bs"
  shows "step_ok w v w' v"
  using holds_extend [OF assms] frame_append [OF assms(2)] by (rule step_okI) simp

lemma push_back_step:
  assumes "holds w v xs" and "push_back x v w = (r, v', w')"
  shows "step_ok w v w' v'"
proof (cases "passes (if m_size v < m_capacity v then 1 else m_size v + 3) (faults w)")
  case True
  from push_back_ok [OF assms(1) True, of x] assms(2)
  have h: "holds w' v' (xs @ [x])"
    and d: "if m_size v < m_capacity v then m_data v' = m_data v \<and> m_capacity v' = m_capacity v
      else m_data v' = Some (length (heap w)) \<and>
           m_capacity v' = (if m_capacity v = 0 then 1 else m_capacity v * 2 + 1)"
    and f: "length (heap w) \<le> length (heap w') \<and>
     (\<forall>a<length (heap w). Some a \<noteq> m_data v \<longrightarrow> heap w' ! a = heap w ! a)"
    by auto
  from f have "frame (m_data v) w w'" by (simp add: frame_def)
  with h show ?thesis
    by (rule step_okI) (use d in \<open>auto split: if_splits\<close>)
next
  case False
  from push_back_fails [OF assms(1) False, of x] assms(2)
  have "v' = v" and "heap w' = heap w @ [] \<or> heap w' = heap w @ [None]"
    by auto
  with step_ok_unchanged [OF assms(1)] show ?thesis by blast
qed

lemma push_back_lvalue_step:
  assumes "holds w v xs" and "push_back_lvalue ref v w = (r, v', w')" and "r \<noteq> Inl Undefined"
  shows "step_ok w v w' v'"
proof (cases "deref w ref")
  case None
  with assms(2,3) show ?thesis by (simp add: push_back_lvalue_def)
next
  case (Some x)
  let ?w1 = "w\<lparr>faults := tl (faults w)\<rparr>"
  have h1: "holds ?w1 v xs"
    using assms(1) by (rule holds_extend [where bs = "[]"]) simp
  show ?thesis
  proof (cases "passes (Suc 0) (faults w)")
    case True
    with assms(2) Some have "push_back x v ?w1 = (r, v', w')"
      by (simp add: push_back_lvalue_def pass_by_value_ok)
    with h1 have "step_ok ?w1 v w' v'" by (rule push_back_step)
    then show ?thesis by (rule step_ok_heap) simp
  next
    case False
    with passes_or_throws [of "Suc 0" "faults w"] have "throws_at 0 (faults w)" by auto
    with assms(2) Some have "v' = v" "w' = ?w1"
      by (simp_all add: push_back_lvalue_def pass_by_value_throws)
    with step_ok_unchanged [OF assms(1), of ?w1 "[]"] show ?thesis by simp
  qed
qed

lemma pop_back_step:
  assumes "holds w v xs" and "pop_back v w = (r, v', w')" and "r \<noteq> Inl Undefined"
  shows "step_ok w v w' v'"
proof -
  from assms(2,3) have "m_size v \<noteq> 0"
    by (cases "m_size v = 0") (simp_all add: pop_back_def)
  with assms(1) have ne: "xs \<noteq> []" by (auto simp: holds_def)
  from pop_back_holds [OF assms(1) ne] assms(2) obtain t where
    v': "v' = v\<lparr>m_size := length xs - 1\<rparr>"
    and w': "w' = w\<lparr>heap := with_block (m_data v) (Some (layout (butlast xs) (m_capacity v))) (heap w),
       trace := t\<rparr>"
    by auto
  have "holds w' v' (butlast xs)"
    unfolding v' w' using assms(1) ne by (rule holds_butlast)
  moreover have "frame (m_data v) w w'"
    by (rule frame_with_block [where bs = "[]"]) (simp add: w')
  ultimately show ?thesis
    by (rule step_okI) (simp add: v')
qed

lemma clear_step:
  assumes "holds w v xs" and "clear v w = (r, v', w')"
  shows "step_ok w v w' v'"
proof -
  note sz = holds_size [OF assms(1)]
  from pop_back_times_holds [OF assms(1) order_refl] assms(2) obtain t where
    v': "v' = v\<lparr>m_size := 0\<rparr>"
    and w': "w' = w\<lparr>heap := with_block (m_data v) (Some (layout (take 0 xs) (m_capacity v))) (heap w),
       trace := t\<rparr>"
    by (auto simp: clear_def sz)
  have "holds w' v' (take 0 xs)"
    unfolding v' w' using assms(1) by (rule holds_take) simp
  moreover have "frame (m_data v) w w'"
    by (rule frame_with_block [where bs = "[]"]) (simp add: w')
  ultimately show ?thesis
    by (rule step_okI) (simp add: v')
qed

lemma rebuild_step:
  assumes "holds w v xs" and "holds w src ys" and "length ys \<le> n" and "0 < n"
    and "(case vector_with_capacity (Other src) n w of
            (Inl e, w1) \<Rightarrow> (Inl e, v, w1)
          | (Inr tmp, w1) \<Rightarrow> swap_in tmp v w1) = (r, v', w')"
  shows "step_ok w v w' v'"
proof (cases "r = Inr ()")
  case True
  from rebuild_cases(2) [OF assms True]
  have v': "v' = \<lparr>m_data = Some (length (heap w)), m_size = length ys, m_capacity = n\<rparr>"
    and hp: "heap w' = with_block (m_data v) None (heap w @ [Some (layout ys n)])"
    by auto
  from holds_fresh [OF assms(1,3,4) hp] have "holds w' v' ys" by (simp add: v')
  moreover from hp have "frame (m_data v) w w'" by (rule frame_with_block)
  ultimately show ?thesis
    by (rule step_okI) (simp add: v')
next
  case False
  from rebuild_cases(3) [OF assms False] step_ok_unchanged [OF assms(1)]
  show ?thesis by blast
qed

lemma swap_in_default_step:
  assumes "holds w v xs" and "swap_in vector_default v w = (r, v', w')"
  shows "step_ok w v w' v'"
proof -
  from swap_in_holds [OF assms(1), of vector_default] assms(2) obtain t where
    v': "v' = vector_default"
    and w': "w' = w\<lparr>heap := with_block (m_data v) None (heap w), trace := t\<rparr>"
    by auto
  have "holds w' v' []"
    by (simp add: v' holds_def vector_default_def)
  moreover have "frame (m_data v) w w'"
    by (rule frame_with_block [where bs = "[]"]) (simp add: w')
  ultimately show ?thesis
    by (rule step_okI) (simp add: v' vector_default_def)
qed

lemma reserve_step:
  assumes "holds w v xs" and "reserve n v w = (r, v', w')"
  shows "step_ok w v w' v'"
proof (cases "capacity v < n")
  case True
  with assms(1) have "length xs \<le> n" and "0 < n"
    by (auto simp: holds_def capacity_def)
  with assms(1) assms(1) show ?thesis
    by (rule rebuild_step) (use assms(2) True in \<open>simp add: reserve_def\<close>)
next
  case False
  with assms(2) have "v' = v" "w' = w" by (simp_all add: reserve_def)
  with step_ok_unchanged [OF assms(1), of w "[]"] show ?thesis by simp
qed

lemma shrink_to_fit_step:
  assumes "holds w v xs" and "shrink_to_fit v w = (r, v', w')"
  shows "step_ok w v w' v'"
proof (cases "size v \<noteq> capacity v")
  case True
  note sz = holds_size [OF assms(1)]
  show ?thesis
  proof (cases "xs = []")
    case e: True
    with sz have "vector_with_capacity (Other v) (size v) w = (Inr vector_default, w)"
      by (simp add: vector_with_capacity_def size_def)
    with assms(2) True have "swap_in vector_default v w = (r, v', w')"
      by (simp add: shrink_to_fit_def)
    with assms(1) show ?thesis by (rule swap_in_default_step)
  next
    case False
    then have "length xs \<le> size v" and "0 < size v"
      by (simp_all add: size_def sz)
    with assms(1) assms(1) show ?thesis
      by (rule rebuild_step) (use assms(2) True in \<open>simp add: shrink_to_fit_def\<close>)
  qed
next
  case False
  with assms(2) have "v' = v" "w' = w" by (simp_all add: shrink_to_fit_def)
  with step_ok_unchanged [OF assms(1), of w "[]"] show ?thesis by simp
qed

lemma assign_copy_step:
  assumes "holds w v xs" and "holds w ov ys" and "assign_copy (Other ov) v w = (r, v', w')"
  shows "step_ok w v w' v'"
proof (cases "ys = []")
  case True
  with holds_size [OF assms(2)]
  have "vector_copy ov w = (Inr vector_default, w)"
    by (simp add: vector_copy_def vector_with_capacity_def)
  with assms(3) have "swap_in vector_default v w = (r, v', w')"
    by (simp add: assign_copy_def)
  with assms(1) show ?thesis by (rule swap_in_default_step)
next
  case False
  then have "length ys \<le> m_size ov" and "0 < m_size ov"
    by (simp_all add: holds_size [OF assms(2)])
  with assms(1,2) show ?thesis
    by (rule rebuild_step) (use assms(3) in \<open>simp add: assign_copy_def vector_copy_def\<close>)
qed

lemma store_frame: "frame (Some a) w (store a i s w)"
  by (simp add: frame_def store_def)

lemma frame_log: "frame p w w' \<Longrightarrow> frame p w (log e w')"
  by (simp add: frame_def log_def)

lemma swap_at_frame:
  assumes "swap_at p i j w = (r, w')"
  shows "frame p w w'"
proof (cases p)
  case None
  with assms show ?thesis by (simp add: swap_at_def frame_refl)
next
  case (Some a)
  have "frame (Some a) w (store a j y (store a i x w))" for x y
    by (simp add: frame_def store_def)
  with assms Some show ?thesis
    by (auto simp: swap_at_def frame_refl split: option.splits)
qed

lemma destroy_at_frame:
  assumes "destroy_at p i w = (r, w')"
  shows "frame p w w'"
proof (cases p)
  case None
  with assms show ?thesis by (simp add: destroy_at_def frame_refl)
next
  case (Some a)
  with assms show ?thesis
    by (auto simp: destroy_at_def frame_refl frame_log store_frame split: option.splits)
qed

lemma shift_down_frame:
  "shift_down p k index w = (r, w') \<Longrightarrow> frame p w w'"
proof (induction k arbitrary: w)
  case 0
  then show ?case
    by (subst (asm) shift_down.simps) (auto simp: frame_refl split: if_splits)
next
  case (Suc k)
  obtain r1 w1 where sw: "swap_at p (Suc k) k w = (r1, w1)" by (cases "swap_at p (Suc k) k w")
  then have f1: "frame p w w1" by (rule swap_at_frame)
  show ?case
  proof (cases "Suc k = index")
    case True
    with Suc.prems show ?thesis
      by (subst (asm) shift_down.simps) (simp add: frame_refl)
  next
    case False
    show ?thesis
    proof (cases r1)
      case (Inl e)
      with Suc.prems False sw f1 show ?thesis
        by (subst (asm) shift_down.simps) simp
    next
      case (Inr u)
      with Suc.prems False sw have "shift_down p k index w1 = (r, w')"
        by (subst (asm) shift_down.simps) simp
      then have "frame p w1 w'" by (rule Suc.IH)
      with f1 show ?thesis by (rule frame_trans) simp
    qed
  qed
qed

lemma swap_down_frame:
  "swap_down p l f i n w = (r, w') \<Longrightarrow> frame p w w'"
proof (induction "n - i" arbitrary: i w)
  case 0
  then show ?case
    by (subst (asm) swap_down.simps) (simp add: frame_refl)
next
  case (Suc d)
  then have i: "i < n" by simp
  obtain r1 w1 where sw: "swap_at p (l + i) (f + i) w = (r1, w1)"
    by (cases "swap_at p (l + i) (f + i) w")
  then have f1: "frame p w w1" by (rule swap_at_frame)
  show ?case
  proof (cases r1)
    case (Inl e)
    with Suc.prems i sw f1 show ?thesis
      by (subst (asm) swap_down.simps) simp
  next
    case (Inr u)
    with Suc.prems i sw have "swap_down p l f (Suc i) n w1 = (r, w')"
      by (subst (asm) swap_down.simps) simp
    moreover from Suc.hyps(2) have "d = n - Suc i" by simp
    ultimately have "frame p w1 w'" by (rule Suc.hyps(1) [rotated])
    with f1 show ?thesis by (rule frame_trans) simp
  qed
qed

lemma pop_back_frame:
  assumes "pop_back v w = (r, v', w')"
  shows "frame (m_data v) w w'" and "m_data v' = m_data v"
proof -
  obtain r1 w1 where d: "destroy_at (m_data v) (m_size v - 1) w = (r1, w1)"
    by (cases "destroy_at (m_data v) (m_size v - 1) w")
  then have "frame (m_data v) w w1" by (rule destroy_at_frame)
  with assms d show "frame (m_data v) w w'"
    by (cases r1) (auto simp: pop_back_def frame_refl split: if_splits)
  from assms d show "m_data v' = m_data v"
    by (cases r1) (auto simp: pop_back_def split: if_splits)
qed

lemma pop_back_times_frame:
  "pop_back_times n v w = (r, v', w') \<Longrightarrow> frame (m_data v) w w'"
proof (induction n arbitrary: v w)
  case 0
  then show ?case by (simp add: frame_refl)
next
  case (Suc n)
  obtain r1 v1 w1 where p: "pop_back v w = (r1, v1, w1)" by (cases "pop_back v w")
  note f1 = pop_back_frame [OF p]
  show ?case
  proof (cases r1)
    case (Inl e)
    with Suc.prems p f1 show ?thesis by simp
  next
    case (Inr u)
    with Suc.prems p have "pop_back_times n v1 w1 = (r, v', w')" by simp
    then have "frame (m_data v1) w1 w'" by (rule Suc.IH)
    with f1(1) show ?thesis by (rule frame_trans) (simp add: f1(2))
  qed
qed

lemma erase_frame:
  assumes "erase first_it last_it v w = (r, v', w')"
  shows "frame (m_data v) w w'"
proof (cases "fst first_it \<noteq> fst (begin_it v) \<or> fst last_it \<noteq> fst (begin_it v)
         \<or> snd last_it < snd first_it \<or> size v < snd last_it")
  case True
  with assms have "w' = w" by (simp add: erase_def)
  then show ?thesis by (simp add: frame_refl)
next
  case False
  obtain r1 w1 where sd: "swap_down (m_data v) (snd last_it) (snd first_it) 0 (size v - snd last_it) w
      = (r1, w1)"
    by (cases "swap_down (m_data v) (snd last_it) (snd first_it) 0 (size v - snd last_it) w")
  then have f1: "frame (m_data v) w w1" by (rule swap_down_frame)
  show ?thesis
  proof (cases r1)
    case (Inl e)
    with assms False sd have "w' = w1" by (simp add: erase_def)
    with f1 show ?thesis by simp
  next
    case (Inr u)
    obtain r2 v2 w2 where pb: "pop_back_times (snd last_it - snd first_it) v w1 = (r2, v2, w2)"
      by (cases "pop_back_times (snd last_it - snd first_it) v w1")
    then have f2: "frame (m_data v) w1 w2" by (rule pop_back_times_frame)
    from assms False sd Inr pb have "w' = w2"
      by (cases r2) (simp_all add: erase_def)
    with f1 f2 show ?thesis
      by (auto intro: frame_trans)
  qed
qed

lemma erase_step:
  assumes "holds w v xs" and "erase first_it last_it v w = (r, v', w')" and "r \<noteq> Inl Undefined"
  shows "step_ok w v w' v'"
proof -
  note sz = holds_size [OF assms(1)]
  from assms(2,3) have g: "\<not> (fst first_it \<noteq> fst (begin_it v) \<or> fst last_it \<noteq> fst (begin_it v)
         \<or> snd last_it < snd first_it \<or> size v < snd last_it)"
    by (cases "fst first_it \<noteq> fst (begin_it v) \<or> fst last_it \<noteq> fst (begin_it v)
         \<or> snd last_it < snd first_it \<or> size v < snd last_it") (simp_all add: erase_def)
  then have fi: "first_it = (m_data v, snd first_it)" and li: "last_it = (m_data v, snd last_it)"
    and le: "snd first_it \<le> snd last_it" "snd last_it \<le> length xs"
    by (auto simp: begin_it_def size_def sz prod_eq_iff)
  from erase_outcome [OF assms(1) le] assms(2) fi li
  have "holds w' v' (take (snd first_it) xs @ drop (snd last_it) xs)"
    and "m_data v' = m_data v"
    by auto
  moreover from assms(2) have "frame (m_data v) w w'" by (rule erase_frame)
  ultimately show ?thesis
    by (intro step_okI) auto
qed

lemma erase_one_step:
  assumes "holds w v xs" and "erase_one pos v w = (r, v', w')" and "r \<noteq> Inl Undefined"
  shows "step_ok w v w' v'"
  using assms unfolding erase_one_def by (rule erase_step)

lemma shift_down_beyond:
  assumes "a < length (heap w)" and "heap w ! a = Some (layout zs cap)" and "length zs \<le> cap"
    and "k < length zs" and "k < index"
  shows "fst (shift_down (Some a) k index w) = Inl Undefined"
  using assms
proof (induction k arbitrary: w zs)
  case 0
  then show ?case by (subst shift_down.simps) simp
next
  case (Suc k)
  let ?zs1 = "zs[Suc k := zs ! k, k := zs ! Suc k]"
  let ?w1 = "w\<lparr>heap := (heap w)[a := Some (layout ?zs1 cap)]\<rparr>"
  have sw: "swap_at (Some a) (Suc k) k w = (Inr (), ?w1)"
    using Suc.prems(1,2,3) by (rule swap_at_layout) (use Suc.prems(4) in auto)
  have "fst (shift_down (Some a) k index ?w1) = Inl Undefined"
    using Suc.prems by (intro Suc.IH [of ?w1 ?zs1]) auto
  with sw Suc.prems(5) show ?case
    by (subst shift_down.simps) simp
qed

lemma insert_step:
  assumes "holds w v xs" and "insert pos value v w = (r, v', w')" and "r \<noteq> Inl Undefined"
  shows "step_ok w v w' v'"
proof -
  from assms(2,3) have g: "fst pos = fst (begin_it v)"
    by (cases "fst pos = fst (begin_it v)") (simp_all add: insert_def)
  obtain r1 v1 w1 where pb: "push_back_lvalue value v w = (r1, v1, w1)"
    by (cases "push_back_lvalue value v w")
  let ?index = "snd pos - snd (begin_it v)"
  show ?thesis
  proof (cases r1)
    case (Inl e)
    with assms(2) g pb have eq: "r = Inl e" "v' = v1" "w' = w1"
      by (simp_all add: insert_def)
    with assms(3) Inl have "r1 \<noteq> Inl Undefined" by simp
    with assms(1) pb have "step_ok w v w1 v1" by (rule push_back_lvalue_step)
    with eq show ?thesis by simp
  next
    case (Inr u)
    then have r1: "r1 = Inr ()" by simp
    then have s1: "step_ok w v w1 v1"
      using assms(1) pb by (intro push_back_lvalue_step [OF assms(1) pb]) simp
    from pb r1 obtain x where x: "deref w value = Some x"
      by (cases "deref w value") (auto simp: push_back_lvalue_def)
    from push_back_lvalue_cases(2) [OF assms(1) x pb r1] have h1: "holds w1 v1 (xs @ [x])" .
    then obtain a where a: "m_data v1 = Some a" "a < length (heap w1)"
      "heap w1 ! a = Some (layout (xs @ [x]) (m_capacity v1))"
      by (rule holds_data) simp
    from h1 have sz1: "m_size v1 = Suc (length xs)" and cap1: "length xs < m_capacity v1"
      by (auto simp: holds_def)
    obtain r2 w2 where sd: "shift_down (Some a) (length xs) ?index w1 = (r2, w2)"
      by (cases "shift_down (Some a) (length xs) ?index w1")
    from assms(2) g pb r1 a(1) sz1 sd have res: "v' = v1" "w' = w2"
      and rr: "r = (case r2 of Inl e \<Rightarrow> Inl e | Inr u \<Rightarrow> Inr (data v1, ?index))"
      by (cases r2; simp add: insert_def end_it_def data_def)+
    have le: "?index \<le> length xs"
    proof (rule ccontr)
      assume "\<not> ?index \<le> length xs"
      then have "length xs < ?index" by simp
      with shift_down_beyond [OF a(2,3), of "length xs" ?index] cap1
      have "fst (shift_down (Some a) (length xs) ?index w1) = Inl Undefined" by simp
      with sd rr assms(3) show False by simp
    qed
    have "shift_down (Some a) (length xs) ?index w1 =
      (Inr (), w1\<lparr>heap := (heap w1)[a := Some (layout (take ?index xs @ x # drop ?index xs)
                                                 (m_capacity v1))]\<rparr>)"
      using a(2) _ cap1 le order_refl by (rule shift_down_layout) (simp add: a(3))
    with sd have w2: "w2 = w1\<lparr>heap := (heap w1)[a := Some (layout (take ?index xs @ x # drop ?index xs)
                                                 (m_capacity v1))]\<rparr>"
      by simp
    have h2: "holds w2 v1 (take ?index xs @ x # drop ?index xs)"
      unfolding w2 using a(1,2) sz1 cap1 le by (simp add: holds_def)
    from sd a(1) have f2: "frame (m_data v1) w1 w2"
      by (simp add: shift_down_frame)
    from s1 have f1: "frame (m_data v) w w1"
      and d1: "m_data v1 = None \<or> m_data v1 = m_data v \<or>
       (\<exists>a. m_data v1 = Some a \<and> length (heap w) \<le> a)"
      by (simp_all add: step_ok_def)
    from f1 f2 d1 have "frame (m_data v) w w2" by (rule frame_trans)
    with h2 show ?thesis
      unfolding res by (rule step_okI) (rule d1)
  qed
qed

lemma vector_copy_step:
  assumes "holds w ov ys" and "vector_copy ov w = (r, w')"
  shows "frame None w w'"
    and "r = Inr c \<Longrightarrow> (\<exists>zs. holds w' c zs) \<and>
           (m_data c = None \<or> (\<exists>a. m_data c = Some a \<and> length (heap w) \<le> a))"
proof -
  note sz = holds_size [OF assms(1)]
  have *: "frame None w w' \<and> (\<forall>c. r = Inr c \<longrightarrow> (\<exists>zs. holds w' c zs) \<and>
           (m_data c = None \<or> (\<exists>a. m_data c = Some a \<and> length (heap w) \<le> a)))"
  proof (cases "ys = []")
    case True
    with sz assms(2) have "r = Inr vector_default" "w' = w"
      by (simp_all add: vector_copy_def vector_with_capacity_def)
    moreover have "holds w vector_default []"
      by (simp add: holds_def vector_default_def)
    ultimately show ?thesis
      by (auto simp: frame_refl vector_default_def)
  next
    case False
    then have pos: "0 < length ys" by simp
    show ?thesis
    proof (cases "passes (Suc (length ys)) (faults w)")
      case True
      from vector_with_capacity_ok [OF assms(1) order_refl pos True] assms(2) sz
      have r: "r = Inr \<lparr>m_data = Some (length (heap w)), m_size = length ys, m_capacity = length ys\<rparr>"
        and hp: "heap w' = heap w @ [Some (layout ys (length ys))]"
        by (auto simp: vector_copy_def)
      have "holds w' \<lparr>m_data = Some (length (heap w)), m_size = length ys, m_capacity = length ys\<rparr> ys"
        using pos by (simp add: holds_def hp)
      moreover from hp have "frame None w w'" by (rule frame_append)
      ultimately show ?thesis using r by auto
    next
      case False
      with passes_or_throws [of "Suc (length ys)" "faults w"]
      obtain k where k: "k < Suc (length ys)" "throws_at k (faults w)" by blast
      show ?thesis
      proof (cases k)
        case 0
        with k pos have "vector_with_capacity (Other ov) (length ys) w =
            (Inl Bad_Alloc, w\<lparr>faults := tl (faults w)\<rparr>)"
          by (simp add: vector_with_capacity_bad_alloc)
        with assms(2) sz have "r = Inl Bad_Alloc" "heap w' = heap w @ []"
          by (auto simp: vector_copy_def)
        with frame_append [of w' w "[]"] show ?thesis by simp
      next
        case (Suc j)
        with k have j: "j < length ys" and t: "throws_at (Suc j) (faults w)" by auto
        from vector_with_capacity_throws [OF assms(1) order_refl pos t j] assms(2) sz
        have "r = Inl Element_Threw" "heap w' = heap w @ [None]"
          by (auto simp: vector_copy_def)
        with frame_append [of w' w "[None]"] show ?thesis by simp
      qed
    qed
  qed
  from * show "frame None w w'" by blast
  from * show "r = Inr c \<Longrightarrow> (\<exists>zs. holds w' c zs) \<and>
           (m_data c = None \<or> (\<exists>a. m_data c = Some a \<and> length (heap w) \<le> a))" by blast
qed

text \<open>The same containers in another order, or some of them, in a world that kept their blocks.\<close>

lemma well_formed_reindex:
  assumes wf: "well_formed (vs, w)"
    and ix: "\<And>k. k < length us \<Longrightarrow> f k < length vs \<and> us ! k = vs ! f k"
    and inj: "\<And>k l. k < length us \<Longrightarrow> l < length us \<Longrightarrow> k \<noteq> l \<Longrightarrow> f k \<noteq> f l"
    and fr: "frame p w w'"
    and keep: "\<And>k. k < length us \<Longrightarrow> m_data (vs ! f k) = None \<or> m_data (vs ! f k) \<noteq> p"
  shows "well_formed (us, w')"
  unfolding well_formed_def fst_conv snd_conv
proof (intro conjI ballI allI impI)
  fix u assume "u \<in> set us"
  then obtain k where k: "k < length us" and u: "u = us ! k"
    by (auto simp: in_set_conv_nth)
  from ix [OF k] u have fk: "f k < length vs" and uv: "u = vs ! f k" by simp_all
  from wf fk obtain ys where "holds w (vs ! f k) ys" by (rule well_formed_owns)
  then have "holds w' (vs ! f k) ys"
    using fr keep [OF k] by (rule holds_frame_other)
  with uv show "\<exists>xs. holds w' u xs" by blast
next
  fix k l assume k: "k < length us" and l: "l < length us" and ne: "k \<noteq> l"
  from ix [OF k] ix [OF l] inj [OF k l ne]
  have "f k < length vs" "f l < length vs" "f k \<noteq> f l" "us ! k = vs ! f k" "us ! l = vs ! f l"
    by simp_all
  with well_formed_disjoint [OF wf, of "f k" "f l"]
  show "m_data (us ! k) = None \<or> m_data (us ! k) \<noteq> m_data (us ! l)" by simp
qed

lemma well_formed_frame:
  assumes "well_formed (vs, w)" and "frame None w w'"
  shows "well_formed (vs, w')"
  using assms(1) _ _ assms(2)
  by (rule well_formed_reindex [where f = "\<lambda>k. k"]) auto

lemma well_formed_swap:
  assumes "well_formed (vs, w)" and "i < length vs" and "j < length vs"
  shows "well_formed (vs[j := vs ! i, i := vs ! j], w)"
  using assms(1) _ _ frame_refl [of None w]
proof (rule well_formed_reindex [where f = "\<lambda>k. if k = i then j else if k = j then i else k"])
  fix k assume "k < length (vs[j := vs ! i, i := vs ! j])"
  with assms(2,3) show "(if k = i then j else if k = j then i else k) < length vs \<and>
      vs[j := vs ! i, i := vs ! j] ! k = vs ! (if k = i then j else if k = j then i else k)"
    by (simp add: nth_list_update)
next
  fix k l :: nat assume "k \<noteq> l"
  then show "(if k = i then j else if k = j then i else k) \<noteq>
      (if l = i then j else if l = j then i else l)"
    by (simp split: if_splits)
qed auto

lemma well_formed_remove:
  assumes wf: "well_formed (vs, w)" and i: "i < length vs" and fr: "frame (m_data (vs ! i)) w w'"
  shows "well_formed (take i vs @ drop (Suc i) vs, w')"
  using wf _ _ fr
proof (rule well_formed_reindex [where f = "\<lambda>k. if k < i then k else Suc k"])
  fix k assume k: "k < length (take i vs @ drop (Suc i) vs)"
  with i have "k < length vs - 1" by simp
  with i show "(if k < i then k else Suc k) < length vs \<and>
      (take i vs @ drop (Suc i) vs) ! k = vs ! (if k < i then k else Suc k)"
    by (auto simp: nth_append min_def)
  from i \<open>k < length vs - 1\<close> have "(if k < i then k else Suc k) < length vs"
    and "(if k < i then k else Suc k) \<noteq> i"
    by auto
  with well_formed_disjoint [OF wf _ i]
  show "m_data (vs ! (if k < i then k else Suc k)) = None \<or>
      m_data (vs ! (if k < i then k else Suc k)) \<noteq> m_data (vs ! i)"
    by blast
next
  fix k l :: nat assume "k \<noteq> l"
  then show "(if k < i then k else Suc k) \<noteq> (if l < i then l else Suc l)"
    by (simp split: if_splits)
qed

lemma well_formed_snoc:
  assumes wf: "well_formed (vs, w)" and own: "\<exists>ys. holds w' c ys" and fr: "frame None w w'"
    and dt: "m_data c = None \<or> (\<exists>a. m_data c = Some a \<and> length (heap w) \<le> a)"
  shows "well_formed (vs @ [c], w')"
  unfolding well_formed_def fst_conv snd_conv
proof (intro conjI ballI allI impI)
  fix u assume "u \<in> set (vs @ [c])"
  then consider "u = c" | "u \<in> set vs" by auto
  then show "\<exists>xs. holds w' u xs"
  proof cases
    case 1
    with own show ?thesis by simp
  next
    case 2
    with well_formed_frame [OF wf fr] show ?thesis
      unfolding well_formed_def fst_conv snd_conv by blast
  qed
next
  fix k l assume k: "k < length (vs @ [c])" and l: "l < length (vs @ [c])" and ne: "k \<noteq> l"
  show "m_data ((vs @ [c]) ! k) = None \<or> m_data ((vs @ [c]) ! k) \<noteq> m_data ((vs @ [c]) ! l)"
  proof (cases "k < length vs")
    case kv: True
    show ?thesis
    proof (cases "l < length vs")
      case True
      with kv ne well_formed_disjoint [OF wf, of k l] show ?thesis
        by (simp add: nth_append)
    next
      case False
      with l have lc: "(vs @ [c]) ! l = c" by (simp add: nth_append)
      from kv have kk: "(vs @ [c]) ! k = vs ! k" by (simp add: nth_append)
      from dt show ?thesis
      proof (elim disjE exE conjE)
        assume "m_data c = None"
        then show ?thesis by (cases "m_data (vs ! k)") (simp_all add: lc kk)
      next
        fix a assume a: "m_data c = Some a" "length (heap w) \<le> a"
        show ?thesis
        proof (cases "m_data (vs ! k)")
          case None
          then show ?thesis by (simp add: kk)
        next
          case (Some b)
          with well_formed_bound [OF wf kv] have "b < length (heap w)" by simp
          with a Some show ?thesis by (simp add: lc kk)
        qed
      qed
    qed
  next
    case False
    with k have kc: "(vs @ [c]) ! k = c" by (simp add: nth_append)
    from False k ne l have lv: "l < length vs" by simp
    then have ll: "(vs @ [c]) ! l = vs ! l" by (simp add: nth_append)
    from dt show ?thesis
    proof (elim disjE exE conjE)
      assume "m_data c = None"
      then show ?thesis by (simp add: kc)
    next
      fix a assume a: "m_data c = Some a" "length (heap w) \<le> a"
      show ?thesis
      proof (cases "m_data (vs ! l)")
        case None
        with a show ?thesis by (simp add: kc ll)
      next
        case (Some b)
        with well_formed_bound [OF wf lv] have "b < length (heap w)" by simp
        with a Some show ?thesis by (simp add: kc ll)
      qed
    qed
  qed
qed

lemma after_member_well_formed:
  assumes wf: "well_formed (vs, w)" and i: "i < length vs"
    and res: "after_member i vs (r, v', w') = Some s'"
    and step: "r \<noteq> Inl Undefined \<Longrightarrow> step_ok w (vs ! i) w' v'"
  shows "well_formed s'"
proof -
  from res have r: "r \<noteq> Inl Undefined" and s': "s' = (vs[i := v'], w')"
    by (auto simp: after_member_def split: if_splits)
  from step [OF r] have "\<exists>ys. holds w' v' ys" "frame (m_data (vs ! i)) w w'"
    "m_data v' = None \<or> m_data v' = m_data (vs ! i)
               \<or> (\<exists>a. m_data v' = Some a \<and> length (heap w) \<le> a)"
    by (simp_all add: step_ok_def)
  with wf i show ?thesis
    unfolding s' by (rule member_step)
qed

lemma well_formed_initial: "well_formed initial"
  by (simp add: well_formed_def initial_def)

lemma run_well_formed:
  assumes wf: "well_formed (vs, w)" and run: "run c (vs, w) = Some s'"
  shows "well_formed s'"
proof (cases c)
  case Default_Construct
  with run have s': "s' = (vs @ [vector_default], w)" by simp
  have "\<exists>ys. holds w vector_default ys"
    by (rule exI [of _ "[]"]) (simp add: holds_def vector_default_def)
  with wf show ?thesis
    unfolding s' by (rule well_formed_snoc) (simp_all add: frame_refl vector_default_def)
next
  case (Copy_Construct_From j)
  with run have j: "j < length vs" by (simp split: if_splits)
  from wf j obtain ys where h: "holds w (vs ! j) ys" by (rule well_formed_owns)
  obtain r w' where vc: "vector_copy (vs ! j) w = (r, w')" by (cases "vector_copy (vs ! j) w")
  note st = vector_copy_step [OF h vc]
  show ?thesis
  proof (cases r)
    case (Inl e)
    with run Copy_Construct_From j vc have "s' = (vs, w')" by (simp split: if_splits)
    with well_formed_frame [OF wf st(1)] show ?thesis by simp
  next
    case (Inr c')
    with run Copy_Construct_From j vc have s': "s' = (vs @ [c'], w')" by simp
    from st(2) [OF Inr] wf st(1) show ?thesis
      unfolding s' by (intro well_formed_snoc [where w = w]) simp_all
  qed
next
  case (Move_Construct_From j)
  with run have j: "j < length vs" and s': "s' = (vs[j := vector_default] @ [vs ! j], w)"
    by (simp_all add: vector_move_def split: if_splits)
  have "\<exists>ys. holds w vector_default ys"
    by (rule exI [of _ "[]"]) (simp add: holds_def vector_default_def)
  with wf have "well_formed (vs @ [vector_default], w)"
    by (rule well_formed_snoc) (simp_all add: frame_refl vector_default_def)
  then have "well_formed ((vs @ [vector_default])[length vs := (vs @ [vector_default]) ! j,
      j := (vs @ [vector_default]) ! length vs], w)"
    by (rule well_formed_swap) (use j in simp_all)
  moreover have "(vs @ [vector_default])[length vs := (vs @ [vector_default]) ! j,
      j := (vs @ [vector_default]) ! length vs] = vs[j := vector_default] @ [vs ! j]"
    using j by (simp add: nth_append list_update_append)
  ultimately show ?thesis by (simp add: s')
next
  case (Assign_Copy i j)
  with run have i: "i < length vs" and j: "j < length vs"
    and am: "after_member i vs (assign_copy (if i = j then Self else Other (vs ! j)) (vs ! i) w)
       = Some s'"
    by (simp_all split: if_splits)
  from wf i obtain xs where hi: "holds w (vs ! i) xs" by (rule well_formed_owns)
  from wf j obtain ys where hj: "holds w (vs ! j) ys" by (rule well_formed_owns)
  show ?thesis
  proof (cases "i = j")
    case True
    with am have "s' = (vs[i := vs ! i], w)"
      by (simp add: assign_copy_def after_member_def)
    with wf show ?thesis by simp
  next
    case False
    obtain r v' w' where ac: "assign_copy (Other (vs ! j)) (vs ! i) w = (r, v', w')"
      by (cases "assign_copy (Other (vs ! j)) (vs ! i) w")
    from hi hj ac have "step_ok w (vs ! i) w' v'" by (rule assign_copy_step)
    with wf i am False ac show ?thesis
      by (intro after_member_well_formed [OF wf i, of r v' w' s']) simp_all
  qed
next
  case (Assign_Move i j)
  with run have i: "i < length vs" and j: "j < length vs" by (simp_all split: if_splits)
  from wf i obtain xs where hi: "holds w (vs ! i) xs" by (rule well_formed_owns)
  show ?thesis
  proof (cases "i = j")
    case True
    with run Assign_Move i have "s' = (vs[i := vs ! i], w)"
      by (simp add: assign_move_def)
    with wf show ?thesis by simp
  next
    case False
    obtain r1 v1 w1 where si: "swap_in vector_default (vs ! i) w = (r1, v1, w1)"
      by (cases "swap_in vector_default (vs ! i) w")
    from swap_in_holds [OF hi, of vector_default] si
    have r1: "r1 = Inr ()" and v1: "v1 = vector_default" by auto
    from hi si have "step_ok w (vs ! i) w1 v1" by (rule swap_in_default_step)
    then have "\<exists>ys. holds w1 v1 ys" "frame (m_data (vs ! i)) w w1"
      "m_data v1 = None \<or> m_data v1 = m_data (vs ! i)
               \<or> (\<exists>a. m_data v1 = Some a \<and> length (heap w) \<le> a)"
      by (simp_all add: step_ok_def)
    with wf i have "well_formed (vs[i := v1], w1)" by (rule member_step)
    then have "well_formed ((vs[i := v1])[j := vs[i := v1] ! i, i := vs[i := v1] ! j], w1)"
      by (rule well_formed_swap) (use i j in simp_all)
    moreover have "(vs[i := v1])[j := vs[i := v1] ! i, i := vs[i := v1] ! j] =
        vs[j := vector_default, i := vs ! j]"
      using i j False by (simp add: list_eq_iff_nth_eq nth_list_update v1)
    moreover from run Assign_Move i j False si r1 v1
    have "s' = (vs[j := vector_default, i := vs ! j], w1)"
      by (simp add: assign_move_def swap_def)
    ultimately show ?thesis by simp
  qed
next
  case (Destroy_Object i)
  with run have i: "i < length vs" by (simp split: if_splits)
  from wf i obtain xs where hi: "holds w (vs ! i) xs" by (rule well_formed_owns)
  from vector_destroy_holds [OF hi] obtain t where
    vd: "vector_destroy (vs ! i) w =
      (Inr (), w\<lparr>heap := with_block (m_data (vs ! i)) None (heap w), trace := t\<rparr>)"
    by blast
  let ?w' = "w\<lparr>heap := with_block (m_data (vs ! i)) None (heap w), trace := t\<rparr>"
  have "frame (m_data (vs ! i)) w ?w'"
    by (rule frame_with_block [where bs = "[]"]) simp
  with wf i have "well_formed (take i vs @ drop (Suc i) vs, ?w')" by (rule well_formed_remove)
  with run Destroy_Object i vd show ?thesis by simp
next
  case (Push_Back i x)
  with run have i: "i < length vs" and am: "after_member i vs (push_back x (vs ! i) w) = Some s'"
    by (simp_all split: if_splits)
  from wf i obtain xs where hi: "holds w (vs ! i) xs" by (rule well_formed_owns)
  obtain r v' w' where op: "push_back x (vs ! i) w = (r, v', w')"
    by (cases "push_back x (vs ! i) w")
  from hi op have "step_ok w (vs ! i) w' v'" by (rule push_back_step)
  with am op show ?thesis
    by (intro after_member_well_formed [OF wf i, of r v' w' s']) simp_all
next
  case (Push_Back_Lvalue i ref)
  with run have i: "i < length vs"
    and am: "after_member i vs (push_back_lvalue ref (vs ! i) w) = Some s'"
    by (simp_all split: if_splits)
  from wf i obtain xs where hi: "holds w (vs ! i) xs" by (rule well_formed_owns)
  obtain r v' w' where op: "push_back_lvalue ref (vs ! i) w = (r, v', w')"
    by (cases "push_back_lvalue ref (vs ! i) w")
  from am op show ?thesis
    by (intro after_member_well_formed [OF wf i, of r v' w' s'] push_back_lvalue_step [OF hi op])
      simp_all
next
  case (Pop_Back i)
  with run have i: "i < length vs" and am: "after_member i vs (pop_back (vs ! i) w) = Some s'"
    by (simp_all split: if_splits)
  from wf i obtain xs where hi: "holds w (vs ! i) xs" by (rule well_formed_owns)
  obtain r v' w' where op: "pop_back (vs ! i) w = (r, v', w')"
    by (cases "pop_back (vs ! i) w")
  from am op show ?thesis
    by (intro after_member_well_formed [OF wf i, of r v' w' s'] pop_back_step [OF hi op])
      simp_all
next
  case (Reserve i n)
  with run have i: "i < length vs" and am: "after_member i vs (reserve n (vs ! i) w) = Some s'"
    by (simp_all split: if_splits)
  from wf i obtain xs where hi: "holds w (vs ! i) xs" by (rule well_formed_owns)
  obtain r v' w' where op: "reserve n (vs ! i) w = (r, v', w')"
    by (cases "reserve n (vs ! i) w")
  from am op show ?thesis
    by (intro after_member_well_formed [OF wf i, of r v' w' s'] reserve_step [OF hi op])
      simp_all
next
  case (Shrink_To_Fit i)
  with run have i: "i < length vs" and am: "after_member i vs (shrink_to_fit (vs ! i) w) = Some s'"
    by (simp_all split: if_splits)
  from wf i obtain xs where hi: "holds w (vs ! i) xs" by (rule well_formed_owns)
  obtain r v' w' where op: "shrink_to_fit (vs ! i) w = (r, v', w')"
    by (cases "shrink_to_fit (vs ! i) w")
  from am op show ?thesis
    by (intro after_member_well_formed [OF wf i, of r v' w' s'] shrink_to_fit_step [OF hi op])
      simp_all
next
  case (Clear i)
  with run have i: "i < length vs" and am: "after_member i vs (clear (vs ! i) w) = Some s'"
    by (simp_all split: if_splits)
  from wf i obtain xs where hi: "holds w (vs ! i) xs" by (rule well_formed_owns)
  obtain r v' w' where op: "clear (vs ! i) w = (r, v', w')"
    by (cases "clear (vs ! i) w")
  from am op show ?thesis
    by (intro after_member_well_formed [OF wf i, of r v' w' s'] clear_step [OF hi op])
      simp_all
next
  case (Swap i j)
  with run have i: "i < length vs" and j: "j < length vs"
    and s': "s' = (vs[j := vs ! i, i := vs ! j], w)"
    by (simp_all add: swap_def split: if_splits)
  from wf i j show ?thesis
    unfolding s' by (rule well_formed_swap)
next
  case (Insert i pos ref)
  with run have i: "i < length vs" and am: "after_member i vs (insert pos ref (vs ! i) w) = Some s'"
    by (simp_all split: if_splits)
  from wf i obtain xs where hi: "holds w (vs ! i) xs" by (rule well_formed_owns)
  obtain r v' w' where op: "insert pos ref (vs ! i) w = (r, v', w')"
    by (cases "insert pos ref (vs ! i) w")
  from am op show ?thesis
    by (intro after_member_well_formed [OF wf i, of r v' w' s'] insert_step [OF hi op])
      simp_all
next
  case (Erase_One i pos)
  with run have i: "i < length vs" and am: "after_member i vs (erase_one pos (vs ! i) w) = Some s'"
    by (simp_all split: if_splits)
  from wf i obtain xs where hi: "holds w (vs ! i) xs" by (rule well_formed_owns)
  obtain r v' w' where op: "erase_one pos (vs ! i) w = (r, v', w')"
    by (cases "erase_one pos (vs ! i) w")
  from am op show ?thesis
    by (intro after_member_well_formed [OF wf i, of r v' w' s'] erase_one_step [OF hi op])
      simp_all
next
  case (Erase i first_it last_it)
  with run have i: "i < length vs"
    and am: "after_member i vs (erase first_it last_it (vs ! i) w) = Some s'"
    by (simp_all split: if_splits)
  from wf i obtain xs where hi: "holds w (vs ! i) xs" by (rule well_formed_owns)
  obtain r v' w' where op: "erase first_it last_it (vs ! i) w = (r, v', w')"
    by (cases "erase first_it last_it (vs ! i) w")
  from am op show ?thesis
    by (intro after_member_well_formed [OF wf i, of r v' w' s'] erase_step [OF hi op])
      simp_all
next
  case (Arm_Faults fs)
  with run have s': "s' = (vs, w\<lparr>faults := fs\<rparr>)" by simp
  have "frame None w (w\<lparr>faults := fs\<rparr>)" by (simp add: frame_def)
  with wf show ?thesis unfolding s' by (rule well_formed_frame)
qed

text \<open>
  Every state a program reaches is well formed: each container alive satisfies \<open>holds\<close>
  for some list of elements, and no two containers share a block.  So the hypothesis
  \<open>holds w v xs\<close> of the statements about single calls leaves out no container that a
  program can build.
\<close>

lemma run_all_well_formed:
  "well_formed s \<Longrightarrow> run_all cs s = Some s' \<Longrightarrow> well_formed s'"
proof (induction cs arbitrary: s)
  case Nil
  then show ?case by simp
next
  case (Cons c cs)
  from Cons.prems(2) obtain s1 where r: "run c s = Some s1" and rest: "run_all cs s1 = Some s'"
    by (auto split: option.splits)
  from Cons.prems(1) r have "well_formed s1"
    by (cases s) (auto intro: run_well_formed)
  then show ?case using rest by (rule Cons.IH)
qed

lemma reachable_holds:
  assumes "run_all cs initial = Some (vs, w)" and "i < length vs"
  shows "\<exists>xs. holds w (vs ! i) xs"
proof -
  from well_formed_initial assms(1) have "well_formed (vs, w)" by (rule run_all_well_formed)
  then obtain ys where "holds w (vs ! i) ys" using assms(2) by (rule well_formed_owns)
  then show ?thesis ..
qed

end
